theory Spec2Isabelle
  imports Main
begin

section \<open>Data model\<close>

text \<open>
  The editor of \<^verbatim>\<open>src/src/App.tsx\<close> keeps its pixels in an HTML canvas and its
  session state in React state cells. The embedding makes both explicit:
  \<^item> a \<^verbatim>\<open>Point\<close> \<^verbatim>\<open>{x, y}\<close> is a pair of integers (JavaScript numbers that hold
    integers; the arithmetic of the rasterizers is exact on them below \<open>2^53\<close>);
  \<^item> an \<^verbatim>\<open>ImageData\<close> is its width, its height and its byte array, four bytes
    (red, green, blue, alpha) per pixel, row by row;
  \<^item> the 2D context of the canvas is its size, its backing bytes and the current
    \<^verbatim>\<open>fillStyle\<close>;
  \<^item> the state cells the handlers read and write form the record \<open>app_state\<close>.
  The component is modelled after it has mounted: \<^verbatim>\<open>canvasRef.current\<close> and its context
  are not null, so the early returns on a missing canvas are never taken.
\<close>

datatype tool = Pencil | Eraser | Fill | Line | Rectangle | Circle | Eyedropper | Select

type_synonym point = "int \<times> int"

type_synonym rgb = "nat \<times> nat \<times> nat"

record image_data =
  img_width :: nat
  img_height :: nat
  img_data :: "nat list"

record canvas =
  cv_width :: nat
  cv_height :: nat
  cv_data :: "nat list"
  cv_fillStyle :: rgb

record history_entry =
  imageData :: image_data
  timestamp :: nat

record app_state =
  canvas :: canvas
  activeTool :: tool
  foregroundColor :: string
  backgroundColor :: string
  isDrawing :: bool
  startPoint :: point
  currentPoint :: point
  history :: "history_entry list"
  historyIndex :: int
  selection :: "(point \<times> point) option"
  clipboard :: "image_data option"

datatype error = TypeError

subsection \<open>Canvas primitives\<close>

definition in_bounds :: "canvas \<Rightarrow> int \<Rightarrow> int \<Rightarrow> bool" where
  "in_bounds c x y = (0 \<le> x \<and> x < int (cv_width c) \<and> 0 \<le> y \<and> y < int (cv_height c))"

text \<open>The byte offset \<^verbatim>\<open>(y * canvas.width + x) * 4\<close> of a pixel.\<close>

definition pixel_index :: "nat \<Rightarrow> int \<Rightarrow> int \<Rightarrow> nat" where
  "pixel_index w x y = nat ((y * int w + x) * 4)"

text \<open>A well-formed canvas holds four bytes for each of its pixels.\<close>

definition wf_canvas :: "canvas \<Rightarrow> bool" where
  "wf_canvas c = (length (cv_data c) = cv_width c * cv_height c * 4)"

text \<open>The four bytes of the pixel at \<open>(x, y)\<close>, and its colour channels.\<close>

definition pixel_at :: "canvas \<Rightarrow> int \<Rightarrow> int \<Rightarrow> nat list" where
  "pixel_at c x y = map (\<lambda>j. cv_data c ! (pixel_index (cv_width c) x y + j)) [0, 1, 2, 3]"

definition rgb_at :: "nat list \<Rightarrow> nat \<Rightarrow> rgb" where
  "rgb_at d i = (d ! i, d ! (i + 1), d ! (i + 2))"

text \<open>
  \<^verbatim>\<open>ctx.getImageData(sx, sy, sw, sh)\<close> copies a rectangle of the backing store into a
  fresh array; what lies outside the canvas reads as transparent black.
  \<^verbatim>\<open>ctx.putImageData(img, dx, dy)\<close> writes an image back, byte for byte, with its
  top-left pixel at \<open>(dx, dy)\<close>, and clips what falls outside the canvas.
\<close>

definition getImageData :: "canvas \<Rightarrow> int \<Rightarrow> int \<Rightarrow> nat \<Rightarrow> nat \<Rightarrow> image_data" where
  "getImageData c sx sy sw sh =
     \<lparr>img_width = sw, img_height = sh,
      img_data = map (\<lambda>i.
         let k = i div 4; x = sx + int (k mod sw); y = sy + int (k div sw)
         in if in_bounds c x y then cv_data c ! (pixel_index (cv_width c) x y + i mod 4)
            else 0) [0..<sw * sh * 4]\<rparr>"

definition putImageData :: "image_data \<Rightarrow> int \<Rightarrow> int \<Rightarrow> canvas \<Rightarrow> canvas" where
  "putImageData img dx dy c =
     c\<lparr>cv_data := map (\<lambda>i.
         let k = i div 4; x = int (k mod cv_width c) - dx; y = int (k div cv_width c) - dy
         in if 0 \<le> x \<and> x < int (img_width img) \<and> 0 \<le> y \<and> y < int (img_height img)
            then img_data img ! (pixel_index (img_width img) x y + i mod 4)
            else cv_data c ! i) [0..<length (cv_data c)]\<rparr>"

section \<open>Colours\<close>

text \<open>
  Colours travel as strings of the form \<^verbatim>\<open>#rrggbb\<close>: the palette constants, the values
  of the colour inputs and the strings \<^verbatim>\<open>getPixelColor\<close> builds. \<open>hexDigit\<close> is the
  value of one character of the class \<^verbatim>\<open>[a-f\d]\<close> matched without regard to case.
\<close>

definition hexDigit :: "char \<Rightarrow> nat option" where
  "hexDigit ch = map_of
     [(CHR ''0'', 0), (CHR ''1'', 1), (CHR ''2'', 2), (CHR ''3'', 3), (CHR ''4'', 4),
      (CHR ''5'', 5), (CHR ''6'', 6), (CHR ''7'', 7), (CHR ''8'', 8), (CHR ''9'', 9),
      (CHR ''a'', 10), (CHR ''b'', 11), (CHR ''c'', 12), (CHR ''d'', 13), (CHR ''e'', 14),
      (CHR ''f'', 15), (CHR ''A'', 10), (CHR ''B'', 11), (CHR ''C'', 12), (CHR ''D'', 13),
      (CHR ''E'', 14), (CHR ''F'', 15)] ch"

text \<open>\<^verbatim>\<open>parseInt(s, 16)\<close> of a group of two hexadecimal digits.\<close>

definition parseHex2 :: "char \<Rightarrow> char \<Rightarrow> nat option" where
  "parseHex2 a b =
     (case hexDigit a of None \<Rightarrow> None
      | Some hi \<Rightarrow> (case hexDigit b of None \<Rightarrow> None | Some lo \<Rightarrow> Some (16 * hi + lo)))"

text \<open>
  \<^verbatim>\<open>hexToRgb\<close>: the pattern \<^verbatim>\<open>/^#?([a-f\d]{2})([a-f\d]{2})([a-f\d]{2})$/i\<close> accepts an
  optional \<^verbatim>\<open>#\<close> and then exactly six hexadecimal digits; anything else is \<^verbatim>\<open>null\<close>.
\<close>

definition hexToRgb :: "string \<Rightarrow> rgb option" where
  "hexToRgb hex =
     (case (if hex \<noteq> [] \<and> hd hex = CHR ''#'' then tl hex else hex) of
        [r1, r2, g1, g2, b1, b2] \<Rightarrow>
          (case parseHex2 r1 r2 of None \<Rightarrow> None
           | Some r \<Rightarrow> (case parseHex2 g1 g2 of None \<Rightarrow> None
           | Some g \<Rightarrow> (case parseHex2 b1 b2 of None \<Rightarrow> None
           | Some b \<Rightarrow> Some (r, g, b))))
      | _ \<Rightarrow> None)"

text \<open>
  \<^verbatim>\<open>n.toString(16).padStart(2, '0')\<close> for a byte \<open>n\<close>: two lower-case digits.
\<close>

definition hexChar :: "nat \<Rightarrow> char" where
  "hexChar n = ''0123456789abcdef'' ! n"

definition byteHex :: "nat \<Rightarrow> string" where
  "byteHex n = [hexChar (n div 16), hexChar (n mod 16)]"

text \<open>
  \<^verbatim>\<open>getPixelColor\<close> reads one pixel with \<^verbatim>\<open>getImageData(x, y, 1, 1)\<close> and
  prints its first three bytes.
\<close>

definition getPixelColor :: "canvas \<Rightarrow> int \<Rightarrow> int \<Rightarrow> string" where
  "getPixelColor c x y =
     (let data = img_data (getImageData c x y 1 1)
      in CHR ''#'' # byteHex (data ! 0) @ byteHex (data ! 1) @ byteHex (data ! 2))"

text \<open>
  The browser's side of \<^verbatim>\<open>drawPixel\<close>. Assigning \<^verbatim>\<open>ctx.fillStyle\<close> parses the string;
  \<open>cssColor\<close> reads the form \<^verbatim>\<open>#rrggbb\<close> this program uses, and a string it does not
  read leaves the style as it was, as a browser does with a string that is no colour.
  \<^verbatim>\<open>ctx.fillRect(x, y, 1, 1)\<close> with an opaque style overwrites the pixel at \<open>(x, y)\<close> and
  is clipped outside the canvas.
\<close>

definition cssColor :: "string \<Rightarrow> rgb option" where
  "cssColor color = (if color \<noteq> [] \<and> hd color = CHR ''#'' then hexToRgb color else None)"

definition setFillStyle :: "string \<Rightarrow> canvas \<Rightarrow> canvas" where
  "setFillStyle color c =
     (case cssColor color of None \<Rightarrow> c | Some v \<Rightarrow> c\<lparr>cv_fillStyle := v\<rparr>)"

definition fillRect1 :: "int \<Rightarrow> int \<Rightarrow> canvas \<Rightarrow> canvas" where
  "fillRect1 x y c =
     (if in_bounds c x y
      then (let i = pixel_index (cv_width c) x y; (r, g, b) = cv_fillStyle c
            in c\<lparr>cv_data := (cv_data c)[i := r, i + 1 := g, i + 2 := b, i + 3 := 255]\<rparr>)
      else c)"

definition drawPixel :: "int \<Rightarrow> int \<Rightarrow> string \<Rightarrow> canvas \<Rightarrow> canvas" where
  "drawPixel x y color c = fillRect1 x y (setFillStyle color c)"

section \<open>Rasterizers\<close>

subsection \<open>Flood fill\<close>

text \<open>
  The loop of \<^verbatim>\<open>floodFill\<close> works on the byte array of a copy of the canvas. The
  stack is a list whose head is the top: \<^verbatim>\<open>pop\<close> takes the head, and the four
  \<^verbatim>\<open>push\<close>es leave \<open>(x, y - 1)\<close> on top. The loop need not end, so it is a partial
  function and \<open>None\<close> stands for a run that never returns.
\<close>

partial_function (option) floodFill_loop ::
  "nat \<Rightarrow> nat \<Rightarrow> rgb \<Rightarrow> rgb \<Rightarrow> point list \<Rightarrow> nat list \<Rightarrow> nat list option" where
  [code]: "floodFill_loop w h targetRGB fillRGB stack data =
     (case stack of
        [] \<Rightarrow> Some data
      | (x, y) # rest \<Rightarrow>
          if x < 0 \<or> x \<ge> int w \<or> y < 0 \<or> y \<ge> int h
          then floodFill_loop w h targetRGB fillRGB rest data
          else let index = pixel_index w x y
               in if rgb_at data index = targetRGB
                  then floodFill_loop w h targetRGB fillRGB
                         ((x, y - 1) # (x, y + 1) # (x - 1, y) # (x + 1, y) # rest)
                         (data[index := fst fillRGB, index + 1 := fst (snd fillRGB),
                               index + 2 := snd (snd fillRGB)])
                  else floodFill_loop w h targetRGB fillRGB rest data)"

definition floodFill :: "int \<Rightarrow> int \<Rightarrow> string \<Rightarrow> string \<Rightarrow> canvas \<Rightarrow> canvas option" where
  "floodFill startX startY targetColor fillColor c =
     (if targetColor = fillColor then Some c
      else let imageData = getImageData c 0 0 (cv_width c) (cv_height c)
           in case hexToRgb targetColor of None \<Rightarrow> Some c
      | Some targetRGB \<Rightarrow> (case hexToRgb fillColor of None \<Rightarrow> Some c
      | Some fillRGB \<Rightarrow>
          (case floodFill_loop (cv_width c) (cv_height c) targetRGB fillRGB
                  [(startX, startY)] (img_data imageData) of
             None \<Rightarrow> None
           | Some data \<Rightarrow> Some (putImageData (imageData\<lparr>img_data := data\<rparr>) 0 0 c))))"

subsection \<open>Line\<close>

text \<open>
  \<^verbatim>\<open>drawLine\<close> calls \<^verbatim>\<open>drawPixel(x, y, color)\<close> once per turn of its
  \<^verbatim>\<open>while (true)\<close> loop and nothing it computes depends on the canvas. The loop is
  written over any action \<open>plot\<close> on any state, so that the same definition gives the
  canvas it paints (\<open>drawLine\<close>) and the pixels it visits, in order (\<open>drawLine_points\<close>).
\<close>

partial_function (option) drawLine_loop ::
  "(int \<Rightarrow> int \<Rightarrow> 's \<Rightarrow> 's) \<Rightarrow> int \<Rightarrow> int \<Rightarrow> int \<Rightarrow> int \<Rightarrow> int \<Rightarrow> int
     \<Rightarrow> int \<Rightarrow> int \<Rightarrow> int \<Rightarrow> 's \<Rightarrow> 's option" where
  [code]: "drawLine_loop plot x1 y1 dx dy sx sy x y err s =
     (let s' = plot x y s
      in if x = x1 \<and> y = y1 then Some s'
         else let e2 = 2 * err;
                  err' = (if e2 > - dy then err - dy else err);
                  x' = (if e2 > - dy then x + sx else x);
                  err'' = (if e2 < dx then err' + dx else err');
                  y' = (if e2 < dx then y + sy else y)
              in drawLine_loop plot x1 y1 dx dy sx sy x' y' err'' s')"

definition drawLine_with ::
  "(int \<Rightarrow> int \<Rightarrow> 's \<Rightarrow> 's) \<Rightarrow> int \<Rightarrow> int \<Rightarrow> int \<Rightarrow> int \<Rightarrow> 's \<Rightarrow> 's option" where
  "drawLine_with plot x0 y0 x1 y1 s =
     (let dx = \<bar>x1 - x0\<bar>; dy = \<bar>y1 - y0\<bar>;
          sx = (if x0 < x1 then 1 else - 1);
          sy = (if y0 < y1 then 1 else - 1);
          err = dx - dy
      in drawLine_loop plot x1 y1 dx dy sx sy x0 y0 err s)"

definition drawLine :: "int \<Rightarrow> int \<Rightarrow> int \<Rightarrow> int \<Rightarrow> string \<Rightarrow> canvas \<Rightarrow> canvas option" where
  "drawLine x0 y0 x1 y1 color c = drawLine_with (\<lambda>x y. drawPixel x y color) x0 y0 x1 y1 c"

definition drawLine_points :: "point \<Rightarrow> point \<Rightarrow> point list option" where
  "drawLine_points a b =
     drawLine_with (\<lambda>x y ps. ps @ [(x, y)]) (fst a) (snd a) (fst b) (snd b) []"

subsection \<open>Rectangle\<close>

definition drawRect ::
  "int \<Rightarrow> int \<Rightarrow> int \<Rightarrow> int \<Rightarrow> string \<Rightarrow> bool \<Rightarrow> canvas \<Rightarrow> canvas" where
  "drawRect x0 y0 x1 y1 color filled c =
     (let left = min x0 x1; right = max x0 x1; top = min y0 y1; bottom = max y0 y1
      in if filled
         then fold (\<lambda>y. fold (\<lambda>x. drawPixel x y color) [left..right]) [top..bottom] c
         else fold (\<lambda>y c'. drawPixel right y color (drawPixel left y color c')) [top..bottom]
                (fold (\<lambda>x c'. drawPixel x bottom color (drawPixel x top color c'))
                   [left..right] c))"

subsection \<open>Circle\<close>

text \<open>
  The filled branch walks the square \<open>[-radius, radius]\<close> in both directions, \<open>y\<close>
  outside and \<open>x\<close> inside; \<^verbatim>\<open>canvasSize\<close> is the size the canvas was created with.
\<close>

definition circle_cell :: "int \<Rightarrow> int \<Rightarrow> int \<Rightarrow> string \<Rightarrow> int \<Rightarrow> int \<Rightarrow> canvas \<Rightarrow> canvas" where
  "circle_cell centerX centerY radius color y x c =
     (if x * x + y * y \<le> radius * radius
      then (let pixelX = centerX + x; pixelY = centerY + y
            in if pixelX \<ge> 0 \<and> pixelX < int (cv_width c) \<and> pixelY \<ge> 0
                  \<and> pixelY < int (cv_height c)
               then drawPixel pixelX pixelY color c else c)
      else c)"

definition plotPoints :: "int \<Rightarrow> int \<Rightarrow> int \<Rightarrow> int \<Rightarrow> string \<Rightarrow> canvas \<Rightarrow> canvas" where
  "plotPoints cx cy x y color c =
     fold (\<lambda>(qx, qy) c'.
            if qx \<ge> 0 \<and> qx < int (cv_width c') \<and> qy \<ge> 0 \<and> qy < int (cv_height c')
            then drawPixel qx qy color c' else c')
       [(cx + x, cy + y), (cx - x, cy + y), (cx + x, cy - y), (cx - x, cy - y),
        (cx + y, cy + x), (cx - y, cy + x), (cx + y, cy - x), (cx - y, cy - x)] c"

function circle_loop ::
  "int \<Rightarrow> int \<Rightarrow> string \<Rightarrow> int \<Rightarrow> int \<Rightarrow> int \<Rightarrow> canvas \<Rightarrow> canvas" where
  "circle_loop cx cy color x y d c =
     (if y \<ge> x
      then (let x' = x + 1;
                y' = (if d > 0 then y - 1 else y);
                d' = (if d > 0 then d + 4 * (x' - y') + 10 else d + 4 * x' + 6)
            in circle_loop cx cy color x' y' d' (plotPoints cx cy x' y' color c))
      else c)"
  by pat_completeness auto
termination
  by (relation "measure (\<lambda>(cx, cy, color, x, y, d, c). nat (y - x + 1))") auto

definition drawCircle ::
  "int \<Rightarrow> int \<Rightarrow> int \<Rightarrow> string \<Rightarrow> bool \<Rightarrow> canvas \<Rightarrow> canvas" where
  "drawCircle centerX centerY radius color filled c =
     (if filled
      then fold (\<lambda>y. fold (circle_cell centerX centerY radius color y) [- radius..radius])
             [- radius..radius] c
      else circle_loop centerX centerY color 0 radius (3 - 2 * radius)
             (plotPoints centerX centerY 0 radius color c))"

section \<open>History\<close>

text \<open>
  \<^verbatim>\<open>Array.prototype.slice(0, end)\<close> and \<^verbatim>\<open>slice(-n)\<close>: a negative bound counts from
  the end of the array, and every bound is clamped to the array.
\<close>

definition slice_to :: "'a list \<Rightarrow> int \<Rightarrow> 'a list" where
  "slice_to xs e = (if e < 0 then take (nat (int (length xs) + e)) xs else take (nat e) xs)"

definition slice_last :: "nat \<Rightarrow> 'a list \<Rightarrow> 'a list" where
  "slice_last n xs = drop (length xs - n) xs"

text \<open>
  \<^verbatim>\<open>saveToHistory\<close>: the entry holds a copy of the canvas and \<^verbatim>\<open>Date.now()\<close>, which
  is the parameter \<open>now\<close>. The updater of \<^verbatim>\<open>setHistory\<close> drops the entries after the
  index, appends the entry and keeps the last 50; \<^verbatim>\<open>setHistoryIndex\<close> adds one.
\<close>

definition saveToHistory :: "nat \<Rightarrow> app_state \<Rightarrow> app_state" where
  "saveToHistory now s =
     (let c = canvas s;
          newEntry = \<lparr>imageData = getImageData c 0 0 (cv_width c) (cv_height c),
                      timestamp = now\<rparr>;
          newHistory = slice_to (history s) (historyIndex s + 1) @ [newEntry]
      in s\<lparr>history := slice_last 50 newHistory, historyIndex := historyIndex s + 1\<rparr>)"

text \<open>Reading \<^verbatim>\<open>history[i]\<close>: \<^verbatim>\<open>undefined\<close> outside the array.\<close>

definition entry_at :: "'a list \<Rightarrow> int \<Rightarrow> 'a option" where
  "entry_at xs i = (if 0 \<le> i \<and> i < int (length xs) then Some (xs ! nat i) else None)"

text \<open>
  \<^verbatim>\<open>undo\<close> and \<^verbatim>\<open>redo\<close> return how the call ended together with the state it leaves:
  \<open>None\<close> when the call returns, \<open>Some e\<close> when it throws \<open>e\<close>. The guards
  \<^verbatim>\<open>if (historyIndex <= 0) return;\<close> and
  \<^verbatim>\<open>if (historyIndex >= history.length - 1) return;\<close> return like any other return of
  the function and signal nothing; the toolbar disables the two buttons under the same
  conditions. Reading \<^verbatim>\<open>.imageData\<close> of an entry that is \<^verbatim>\<open>undefined\<close> throws a
  \<open>TypeError\<close> before anything is written.
\<close>

definition undo :: "app_state \<Rightarrow> error option \<times> app_state" where
  "undo s =
     (if historyIndex s \<le> 0 then (None, s)
      else case entry_at (history s) (historyIndex s - 1) of
             None \<Rightarrow> (Some TypeError, s)
           | Some prevEntry \<Rightarrow>
               (None, s\<lparr>canvas := putImageData (imageData prevEntry) 0 0 (canvas s),
                        historyIndex := historyIndex s - 1\<rparr>))"

definition redo :: "app_state \<Rightarrow> error option \<times> app_state" where
  "redo s =
     (if historyIndex s \<ge> int (length (history s)) - 1 then (None, s)
      else case entry_at (history s) (historyIndex s + 1) of
             None \<Rightarrow> (Some TypeError, s)
           | Some nextEntry \<Rightarrow>
               (None, s\<lparr>canvas := putImageData (imageData nextEntry) 0 0 (canvas s),
                        historyIndex := historyIndex s + 1\<rparr>))"

text \<open>A run of captures, one after the other, at the given times.\<close>

definition captures :: "nat list \<Rightarrow> app_state \<Rightarrow> app_state" where
  "captures nows s = fold saveToHistory nows s"

section \<open>Pointer handlers\<close>

text \<open>
  A mouse event is the pixel under the pointer,
  \<^verbatim>\<open>Math.floor((event.clientX - rect.left) / zoom)\<close> and its \<open>y\<close> counterpart;
  \<^verbatim>\<open>getPixelCoords\<close> clamps it to the canvas.
\<close>

definition getPixelCoords :: "canvas \<Rightarrow> point \<Rightarrow> point" where
  "getPixelCoords c ev =
     (max 0 (min (int (cv_width c) - 1) (fst ev)), max 0 (min (int (cv_height c) - 1) (snd ev)))"

text \<open>\<^verbatim>\<open>Math.floor(Math.sqrt(n))\<close> for a natural number \<open>n\<close>.\<close>

fun floor_sqrt :: "nat \<Rightarrow> nat" where
  "floor_sqrt 0 = 0"
| "floor_sqrt (Suc n) =
     (let r = floor_sqrt n in if (r + 1) * (r + 1) \<le> Suc n then r + 1 else r)"

text \<open>
  The handlers return \<open>None\<close> when a loop they call never returns. \<^verbatim>\<open>saveCanvas\<close>
  stores a data URL of the canvas in the key-value store and touches none of the state
  modelled here.
\<close>

definition handleMouseDown :: "point \<Rightarrow> nat \<Rightarrow> app_state \<Rightarrow> app_state option" where
  "handleMouseDown ev now s =
     (let point = getPixelCoords (canvas s) ev;
          s1 = s\<lparr>startPoint := point, currentPoint := point, isDrawing := True\<rparr>
      in if activeTool s = Eyedropper
         then (let color = getPixelColor (canvas s) (fst point) (snd point)
               in Some (s1\<lparr>foregroundColor := color\<rparr>))
         else if activeTool s = Fill
         then (let targetColor = getPixelColor (canvas s) (fst point) (snd point)
               in case floodFill (fst point) (snd point) targetColor (foregroundColor s)
                         (canvas s) of
                    None \<Rightarrow> None
                  | Some c' \<Rightarrow> Some (saveToHistory now (s1\<lparr>canvas := c'\<rparr>)))
         else if activeTool s = Pencil
         then Some (s1\<lparr>canvas :=
                 drawPixel (fst point) (snd point) (foregroundColor s) (canvas s)\<rparr>)
         else if activeTool s = Eraser
         then Some (s1\<lparr>canvas :=
                 drawPixel (fst point) (snd point) (backgroundColor s) (canvas s)\<rparr>)
         else Some s1)"

definition handleMouseUp :: "point \<Rightarrow> nat \<Rightarrow> app_state \<Rightarrow> app_state option" where
  "handleMouseUp ev now s =
     (if \<not> isDrawing s then Some s
      else let point = getPixelCoords (canvas s) ev;
               x0 = fst (startPoint s); y0 = snd (startPoint s);
               drawn =
                 (if activeTool s = Line
                  then drawLine x0 y0 (fst point) (snd point) (foregroundColor s) (canvas s)
                  else if activeTool s = Rectangle
                  then Some (drawRect x0 y0 (fst point) (snd point) (foregroundColor s)
                               False (canvas s))
                  else if activeTool s = Circle
                  then (let radius = int (floor_sqrt
                              (nat ((fst point - x0) * (fst point - x0)
                                    + (snd point - y0) * (snd point - y0))))
                        in Some (drawCircle x0 y0 radius (foregroundColor s) False (canvas s)))
                  else Some (canvas s))
           in case drawn of
                None \<Rightarrow> None
              | Some c' \<Rightarrow> Some (saveToHistory now (s\<lparr>canvas := c', isDrawing := False\<rparr>)))"

text \<open>A press at one event followed by a release at another.\<close>

definition gesture :: "point \<Rightarrow> nat \<Rightarrow> point \<Rightarrow> nat \<Rightarrow> app_state \<Rightarrow> app_state option" where
  "gesture down t1 up t2 s =
     (case handleMouseDown down t1 s of None \<Rightarrow> None | Some s1 \<Rightarrow> handleMouseUp up t2 s1)"

section \<open>Clipboard\<close>

text \<open>
  Modelled from the spec: \<^verbatim>\<open>App.tsx\<close> declares the state cells \<^verbatim>\<open>selection\<close> and
  \<^verbatim>\<open>clipboard\<close> and nothing in the source writes or reads them; \<open>copy\<close> and \<open>paste\<close>
  follow section 4.5 of the specification. \<open>copy\<close> extracts the dense block of the
  selection rectangle, its corners normalised to top-left and bottom-right, and fails
  with \<open>EmptySelection\<close> when no selection is active. \<open>paste\<close> writes the block with its
  top-left pixel at the destination, clips what falls outside the canvas, captures a
  history entry, and fails with \<open>EmptyClipboard\<close> when nothing has been copied.
\<close>

datatype clip_error = EmptySelection | EmptyClipboard

definition copy :: "app_state \<Rightarrow> clip_error + app_state" where
  "copy s =
     (case selection s of
        None \<Rightarrow> Inl EmptySelection
      | Some (p, q) \<Rightarrow>
          (let left = min (fst p) (fst q); right = max (fst p) (fst q);
               top = min (snd p) (snd q); bottom = max (snd p) (snd q)
           in Inr (s\<lparr>clipboard := Some (getImageData (canvas s) left top
                        (nat (right - left + 1)) (nat (bottom - top + 1)))\<rparr>)))"

definition paste :: "point \<Rightarrow> nat \<Rightarrow> app_state \<Rightarrow> clip_error + app_state" where
  "paste dest now s =
     (case clipboard s of
        None \<Rightarrow> Inl EmptyClipboard
      | Some block \<Rightarrow>
          Inr (saveToHistory now
                 (s\<lparr>canvas := putImageData block (fst dest) (snd dest) (canvas s)\<rparr>)))"

section \<open>The session at start\<close>

text \<open>
  The state of a mounted component before its first capture: the initial values of
  the state cells, and the 32 by 32 canvas the initialising effect has filled with
  white.
\<close>

definition initial_canvas :: canvas where
  "initial_canvas =
     \<lparr>cv_width = 32, cv_height = 32,
      cv_data = concat (replicate (32 * 32) [255, 255, 255, 255]),
      cv_fillStyle = (255, 255, 255)\<rparr>"

definition initial_state :: app_state where
  "initial_state =
     \<lparr>canvas = initial_canvas, activeTool = Pencil, foregroundColor = ''#000000'',
      backgroundColor = ''#FFFFFF'', isDrawing = False, startPoint = (0, 0),
      currentPoint = (0, 0), history = [], historyIndex = - 1, selection = None,
      clipboard = None\<rparr>"

text \<open>The session after the capture the initialising effect makes.\<close>

definition started :: app_state where
  "started = saveToHistory 0 initial_state"

text \<open>A canvas of nine pixels, all different, and a session with a selection on it.\<close>

definition nine_pixels :: canvas where
  "nine_pixels = \<lparr>cv_width = 3, cv_height = 3, cv_data = [0..<36], cv_fillStyle = (0, 0, 0)\<rparr>"

definition selecting :: app_state where
  "selecting = initial_state\<lparr>canvas := nine_pixels, selection := Some ((0, 0), (2, 2))\<rparr>"

section \<open>Auxiliary notions for the proofs\<close>

subsection \<open>History entries\<close>

text \<open>The entry a capture of canvas \<open>c\<close> at time \<open>t\<close> stores.\<close>

definition entry_of :: "canvas \<Rightarrow> nat \<Rightarrow> history_entry" where
  "entry_of c t = \<lparr>imageData = getImageData c 0 0 (cv_width c) (cv_height c), timestamp = t\<rparr>"

subsection \<open>The steps of a line\<close>

text \<open>
  After \<open>i\<close> steps along \<open>x\<close> and \<open>j\<close> steps along \<open>y\<close> the loop of \<^verbatim>\<open>drawLine\<close> is
  at \<open>(x0 + sx * i, y0 + sy * j)\<close> with the error term \<open>dx - dy - i * dy + j * dx\<close>.
  \<open>line_steps\<close> lists the pairs \<open>(i, j)\<close> the loop goes through from one such state on;
  \<open>line_pixels\<close> are the pixels they stand for.
\<close>

definition line_inv :: "int \<Rightarrow> int \<Rightarrow> int \<Rightarrow> int \<Rightarrow> int \<Rightarrow> int \<Rightarrow> int \<Rightarrow> int \<Rightarrow> int \<Rightarrow> int \<Rightarrow> int \<Rightarrow> bool" where
  "line_inv x0 y0 dx dy sx sy i j x y err =
     (0 \<le> i \<and> i \<le> dx \<and> 0 \<le> j \<and> j \<le> dy \<and> x = x0 + sx * i \<and> y = y0 + sy * j
      \<and> err = dx - dy - i * dy + j * dx \<and> (sx = 1 \<or> sx = - 1) \<and> (sy = 1 \<or> sy = - 1))"

function line_steps :: "int \<Rightarrow> int \<Rightarrow> int \<Rightarrow> int \<Rightarrow> (int \<times> int) list" where
  "line_steps dx dy i j =
     (if 0 \<le> i \<and> i \<le> dx \<and> 0 \<le> j \<and> j \<le> dy \<and> \<not> (i = dx \<and> j = dy)
      then (i, j) # line_steps dx dy
             (if 2 * (dx - dy - i * dy + j * dx) > - dy then i + 1 else i)
             (if 2 * (dx - dy - i * dy + j * dx) < dx then j + 1 else j)
      else [(i, j)])"
  by pat_completeness auto
termination
proof (relation "measure (\<lambda>(dx, dy, i, j). nat (dx - i + (dy - j)))", goal_cases)
  case 1
  show ?case by simp
next
  case (2 dx dy i j)
  then have "2 * (dx - dy - i * dy + j * dx) > - dy \<or> 2 * (dx - dy - i * dy + j * dx) < dx"
    by auto
  with 2 show ?case by auto
qed

definition line_pixels :: "int \<Rightarrow> int \<Rightarrow> int \<Rightarrow> int \<Rightarrow> point list" where
  "line_pixels x0 y0 x1 y1 =
     map (\<lambda>(a, b). (x0 + (if x0 < x1 then 1 else - 1) * a, y0 + (if y0 < y1 then 1 else - 1) * b))
       (line_steps \<bar>x1 - x0\<bar> \<bar>y1 - y0\<bar> 0 0)"

subsection \<open>The region of a flood fill\<close>

text \<open>
  A point of the grid, its position in the pixel array (its bytes start at four times
  that), and its four neighbours in the order \<^verbatim>\<open>floodFill\<close> takes them from the stack.
\<close>

definition in_grid :: "nat \<Rightarrow> nat \<Rightarrow> point \<Rightarrow> bool" where
  "in_grid w h p = (0 \<le> fst p \<and> fst p < int w \<and> 0 \<le> snd p \<and> snd p < int h)"

definition cell :: "nat \<Rightarrow> point \<Rightarrow> nat" where
  "cell w p = nat (snd p) * w + nat (fst p)"

definition neighbours :: "point \<Rightarrow> point list" where
  "neighbours p = [(fst p, snd p - 1), (fst p, snd p + 1), (fst p - 1, snd p), (fst p + 1, snd p)]"

text \<open>
  The 4-connected region of the seed: the pixels of colour \<open>t\<close> in the array \<open>d\<close> that a
  path of neighbouring pixels of colour \<open>t\<close> joins to the seed. It is empty when the
  seed is outside the grid or not of colour \<open>t\<close>.
\<close>

inductive_set region :: "nat \<Rightarrow> nat \<Rightarrow> nat list \<Rightarrow> rgb \<Rightarrow> point \<Rightarrow> point set"
  for w h d t seed where
  seed: "in_grid w h seed \<Longrightarrow> rgb_at d (pixel_index w (fst seed) (snd seed)) = t
           \<Longrightarrow> seed \<in> region w h d t seed"
| step: "p \<in> region w h d t seed \<Longrightarrow> q \<in> set (neighbours p) \<Longrightarrow> in_grid w h q
           \<Longrightarrow> rgb_at d (pixel_index w (fst q) (snd q)) = t \<Longrightarrow> q \<in> region w h d t seed"

text \<open>The region for a canvas and a target colour given as a string.\<close>

definition fill_region :: "canvas \<Rightarrow> string \<Rightarrow> point \<Rightarrow> point set" where
  "fill_region c targetColor seed =
     (case hexToRgb targetColor of
        None \<Rightarrow> {}
      | Some t \<Rightarrow> region (cv_width c) (cv_height c) (cv_data c) t seed)"

text \<open>
  An array that agrees with \<open>d0\<close> on every pixel outside \<open>R\<close>; the pixels of colour
  \<open>t\<close>, whose number bounds the fills still to come; and a stack from which a run with
  the fill colour equal to the target colour never returns.
\<close>

definition unchanged_outside :: "nat \<Rightarrow> nat \<Rightarrow> point set \<Rightarrow> nat list \<Rightarrow> nat list \<Rightarrow> bool" where
  "unchanged_outside w h R d0 d =
     (length d = length d0
      \<and> (\<forall>p. in_grid w h p \<and> p \<notin> R \<longrightarrow> (\<forall>j<4. d ! (4 * cell w p + j) = d0 ! (4 * cell w p + j))))"

definition target_cells :: "nat \<Rightarrow> nat \<Rightarrow> rgb \<Rightarrow> nat list \<Rightarrow> point set" where
  "target_cells w h t d = {p. in_grid w h p \<and> rgb_at d (4 * cell w p) = t}"

definition stuck :: "nat \<Rightarrow> nat \<Rightarrow> rgb \<Rightarrow> point list \<Rightarrow> nat list \<Rightarrow> bool" where
  "stuck w h t stack d =
     (\<exists>q\<in>set stack. in_grid w h q \<and> rgb_at d (4 * cell w q) = t
        \<and> (\<exists>n\<in>set (neighbours q). in_grid w h n \<and> rgb_at d (4 * cell w n) = t))"

text \<open>A canvas of two pixels, one white and one black.\<close>

definition two_pixels :: canvas where
  "two_pixels = \<lparr>cv_width = 2, cv_height = 1, cv_data = [255, 255, 255, 255, 0, 0, 0, 255],
     cv_fillStyle = (0, 0, 0)\<rparr>"

section \<open>Properties\<close>

subsection \<open>History\<close>

lemma slice_last_append: "slice_last n (slice_last n xs @ ys) = slice_last n (xs @ ys)"
proof (cases "length xs \<le> n")
  case True then show ?thesis by (simp add: slice_last_def)
next
  case False
  then have "length ys + length xs - n = (length xs - n) + length ys"
    "length xs - n + n = length xs" by simp_all
  then show ?thesis by (simp add: slice_last_def add.commute)
qed

lemma slice_to_all: "int (length xs) \<le> e \<Longrightarrow> slice_to xs e = xs"
  by (simp add: slice_to_def)

lemma length_slice_last: "length (slice_last n xs) = min n (length xs)"
  by (auto simp add: slice_last_def)

lemma slice_last_short: "length xs \<le> n \<Longrightarrow> slice_last n xs = xs"
  by (simp add: slice_last_def)

lemma saveToHistory_at_end:
  assumes "int (length (history s)) \<le> historyIndex s + 1"
  shows "history (saveToHistory t s) = slice_last 50 (history s @ [entry_of (canvas s) t])"
    and "historyIndex (saveToHistory t s) = historyIndex s + 1"
    and "canvas (saveToHistory t s) = canvas s"
  using assms by (simp_all add: saveToHistory_def Let_def slice_to_all entry_of_def)

lemma captures_at_end:
  assumes "int (length (history s)) \<le> historyIndex s + 1" "length (history s) \<le> 50"
  shows "history (captures ts s) = slice_last 50 (history s @ map (entry_of (canvas s)) ts)
     \<and> historyIndex (captures ts s) = historyIndex s + int (length ts)
     \<and> canvas (captures ts s) = canvas s"
  using assms
proof (induction ts arbitrary: s)
  case Nil
  then show ?case by (simp add: captures_def slice_last_short)
next
  case (Cons t ts)
  let ?s1 = "saveToHistory t s"
  have h: "history ?s1 = slice_last 50 (history s @ [entry_of (canvas s) t])"
    and i: "historyIndex ?s1 = historyIndex s + 1" and c: "canvas ?s1 = canvas s"
    using Cons.prems(1) by (rule saveToHistory_at_end)+
  have a1: "int (length (history ?s1)) \<le> historyIndex ?s1 + 1"
    using Cons.prems(1) by (simp add: h i length_slice_last)
  have a2: "length (history ?s1) \<le> 50" by (simp add: h length_slice_last)
  have "captures (t # ts) s = captures ts ?s1" by (simp add: captures_def)
  with Cons.IH[OF a1 a2] show ?case
    by (simp add: h i c slice_last_append)
qed

text \<open>
  Claim C1. Sixty captures from the empty history leave fifty entries, the ten oldest
  gone. The index has been advanced sixty times and never rebased: it is 59, past the
  last entry at position 49, so that the entry an undo would read does not exist.
\<close>

theorem captures_60_index_past_end:
  "length (history (captures [0..<60] initial_state)) = 50
   \<and> map timestamp (history (captures [0..<60] initial_state)) = [10..<60]
   \<and> historyIndex (captures [0..<60] initial_state) = 59
   \<and> fst (undo (captures [0..<60] initial_state)) = Some TypeError"
proof -
  let ?s = "captures [0..<60] initial_state"
  have a: "int (length (history initial_state)) \<le> historyIndex initial_state + 1"
    "length (history initial_state) \<le> 50" by (simp_all add: initial_state_def)
  have t: "map (timestamp \<circ> entry_of c) ts = ts" for c ts
    by (induction ts) (simp_all add: entry_of_def)
  have h: "history initial_state = []" "historyIndex initial_state = - 1"
    by (simp_all add: initial_state_def)
  have d: "slice_last 50 (map (entry_of c) [0..<60]) = map (entry_of c) [10..<60]" for c
    by (simp add: slice_last_def drop_map del: upt_rec_numeral)
  from captures_at_end[OF a, of "[0..<60]"]
  have H: "history ?s = map (entry_of (canvas initial_state)) [10..<60]"
    and I: "historyIndex ?s = 59"
    by (simp_all add: h d del: upt_rec_numeral)
  have L: "length (history ?s) = 50" by (simp add: H del: upt_rec_numeral)
  have U: "fst (undo ?s) = Some TypeError" by (simp add: undo_def I entry_at_def L)
  show ?thesis using L I U by (simp add: H t del: upt_rec_numeral)
qed




subsection \<open>Line\<close>

lemma line_inv_at_end:
  assumes "line_inv x0 y0 dx dy sx sy i j x y err"
  shows "(x = x0 + sx * dx \<and> y = y0 + sy * dy) = (i = dx \<and> j = dy)"
  using assms unfolding line_inv_def by auto

lemma line_err_x_done:
  fixes dx dy i j :: int
  assumes "0 \<le> dx" "0 \<le> dy" "j < dy"
  shows "2 * (dx - dy - dx * dy + j * dx) \<le> - dy"
proof -
  define p where "p = dx * (1 + j - dy)"
  have "p \<le> 0" unfolding p_def using assms by (intro mult_nonneg_nonpos) simp_all
  moreover have "dx - dy - dx * dy + j * dx = p - dy"
    unfolding p_def by (simp add: algebra_simps)
  ultimately show ?thesis using assms by simp
qed

lemma line_err_y_done:
  fixes dx dy i j :: int
  assumes "0 \<le> dx" "0 \<le> dy" "i < dx"
  shows "dx \<le> 2 * (dx - dy - i * dy + dy * dx)"
proof -
  define p where "p = dy * (dx - i - 1)"
  have "0 \<le> p" unfolding p_def using assms by (intro mult_nonneg_nonneg) simp_all
  moreover have "dx - dy - i * dy + dy * dx = dx + p"
    unfolding p_def by (simp add: algebra_simps)
  ultimately show ?thesis using assms by simp
qed

lemma line_step:
  assumes inv: "line_inv x0 y0 dx dy sx sy i j x y err" and ne: "\<not> (i = dx \<and> j = dy)"
  shows "line_inv x0 y0 dx dy sx sy (if 2 * err > - dy then i + 1 else i)
           (if 2 * err < dx then j + 1 else j)
           (if 2 * err > - dy then x + sx else x) (if 2 * err < dx then y + sy else y)
           (if 2 * err < dx then (if 2 * err > - dy then err - dy else err) + dx
            else (if 2 * err > - dy then err - dy else err))"
    and "2 * err > - dy \<or> 2 * err < dx"
proof -
  from inv have b: "0 \<le> i" "i \<le> dx" "0 \<le> j" "j \<le> dy"
    and e: "err = dx - dy - i * dy + j * dx" by (simp_all add: line_inv_def)
  have xs: "i < dx" if "2 * err > - dy"
  proof (rule ccontr)
    assume "\<not> i < dx"
    with b ne have "i = dx" "j < dy" by auto
    with line_err_x_done[of dx dy j] b e that show False by simp
  qed
  have ys: "j < dy" if "2 * err < dx"
  proof (rule ccontr)
    assume "\<not> j < dy"
    with b ne have "j = dy" "i < dx" by auto
    with line_err_y_done[of dx dy i] b e that show False by simp
  qed
  show "2 * err > - dy \<or> 2 * err < dx"
  proof (rule ccontr)
    assume "\<not> ?thesis"
    then have "dx \<le> - dy" by simp
    with b ne show False by auto
  qed
  show "line_inv x0 y0 dx dy sx sy (if 2 * err > - dy then i + 1 else i)
           (if 2 * err < dx then j + 1 else j)
           (if 2 * err > - dy then x + sx else x) (if 2 * err < dx then y + sy else y)
           (if 2 * err < dx then (if 2 * err > - dy then err - dy else err) + dx
            else (if 2 * err > - dy then err - dy else err))"
    using inv xs ys unfolding line_inv_def by (auto simp add: algebra_simps)
qed

lemma line_steps_props:
  assumes "line_inv x0 y0 dx dy sx sy i j x y err"
  shows "hd (line_steps dx dy i j) = (i, j) \<and> last (line_steps dx dy i j) = (dx, dy)
     \<and> length (line_steps dx dy i j) \<le> nat (dx - i + (dy - j)) + 1
     \<and> list_all (\<lambda>(a, b). 0 \<le> a \<and> a \<le> dx \<and> 0 \<le> b \<and> b \<le> dy) (line_steps dx dy i j)"
  using assms
proof (induction "nat (dx - i + (dy - j))" arbitrary: i j x y err rule: less_induct)
  case less
  note inv = less.prems(1)
  from inv have b: "0 \<le> i" "i \<le> dx" "0 \<le> j" "j \<le> dy"
    and e: "err = dx - dy - i * dy + j * dx" by (simp_all add: line_inv_def)
  show ?case
  proof (cases "i = dx \<and> j = dy")
    case True
    then have "line_steps dx dy i j = [(i, j)]" by (subst line_steps.simps) simp
    with True b show ?thesis by simp
  next
    case False
    let ?i = "if 2 * err > - dy then i + 1 else i"
    let ?j = "if 2 * err < dx then j + 1 else j"
    let ?x = "if 2 * err > - dy then x + sx else x"
    let ?y = "if 2 * err < dx then y + sy else y"
    let ?e = "if 2 * err < dx then (if 2 * err > - dy then err - dy else err) + dx
            else (if 2 * err > - dy then err - dy else err)"
    have n1: "line_inv x0 y0 dx dy sx sy ?i ?j ?x ?y ?e" and prog: "2 * err > - dy \<or> 2 * err < dx"
      using line_step[OF inv False] by blast+
    from n1 have b': "?i \<le> dx" "?j \<le> dy" by (simp_all add: line_inv_def)
    have m: "nat (dx - ?i + (dy - ?j)) < nat (dx - i + (dy - j))"
      using prog b b' by auto
    have u: "line_steps dx dy i j = (i, j) # line_steps dx dy ?i ?j"
      by (subst line_steps.simps) (simp add: b False e)
    have ne: "line_steps dx dy ?i ?j \<noteq> []" by (subst line_steps.simps) simp
    note IH = less.hyps[OF m n1]
    have "length (line_steps dx dy ?i ?j) \<le> nat (dx - i + (dy - j))" using IH m by linarith
    then show ?thesis unfolding u using IH ne b by simp
  qed
qed

lemma drawLine_loop_runs:
  assumes "line_inv x0 y0 dx dy sx sy i j x y err"
  shows "drawLine_loop plot (x0 + sx * dx) (y0 + sy * dy) dx dy sx sy x y err s
           = Some (fold (\<lambda>(a, b). plot (x0 + sx * a) (y0 + sy * b)) (line_steps dx dy i j) s)"
  using assms
proof (induction "nat (dx - i + (dy - j))" arbitrary: i j x y err s rule: less_induct)
  case less
  note inv = less.prems(1)
  from inv have xy: "x = x0 + sx * i" "y = y0 + sy * j" and b: "0 \<le> i" "i \<le> dx" "0 \<le> j" "j \<le> dy"
    and e: "err = dx - dy - i * dy + j * dx" by (simp_all add: line_inv_def)
  note eq = drawLine_loop.simps[of plot "x0 + sx * dx" "y0 + sy * dy" dx dy sx sy x y err s]
  show ?case
  proof (cases "i = dx \<and> j = dy")
    case True
    have "x = x0 + sx * dx \<and> y = y0 + sy * dy" using line_inv_at_end[OF inv] True by simp
    then have "drawLine_loop plot (x0 + sx * dx) (y0 + sy * dy) dx dy sx sy x y err s = Some (plot x y s)"
      unfolding eq by (simp add: Let_def)
    moreover have "line_steps dx dy i j = [(i, j)]" using True by (subst line_steps.simps) simp
    ultimately show ?thesis by (simp add: xy)
  next
    case False
    let ?i = "if 2 * err > - dy then i + 1 else i"
    let ?j = "if 2 * err < dx then j + 1 else j"
    let ?x = "if 2 * err > - dy then x + sx else x"
    let ?y = "if 2 * err < dx then y + sy else y"
    let ?e = "if 2 * err < dx then (if 2 * err > - dy then err - dy else err) + dx
            else (if 2 * err > - dy then err - dy else err)"
    have n1: "line_inv x0 y0 dx dy sx sy ?i ?j ?x ?y ?e" and prog: "2 * err > - dy \<or> 2 * err < dx"
      using line_step[OF inv False] by blast+
    from n1 have b': "?i \<le> dx" "?j \<le> dy" by (simp_all add: line_inv_def)
    have m: "nat (dx - ?i + (dy - ?j)) < nat (dx - i + (dy - j))"
      using prog b b' by auto
    have u: "line_steps dx dy i j = (i, j) # line_steps dx dy ?i ?j"
      by (subst line_steps.simps) (simp add: b False e)
    have ne: "\<not> (x = x0 + sx * dx \<and> y = y0 + sy * dy)" using line_inv_at_end[OF inv] False by simp
    have r1: "drawLine_loop plot (x0 + sx * dx) (y0 + sy * dy) dx dy sx sy x y err s
        = drawLine_loop plot (x0 + sx * dx) (y0 + sy * dy) dx dy sx sy ?x ?y ?e (plot x y s)"
      by (subst eq) (simp only: Let_def ne if_False)
    show ?thesis unfolding r1 less.hyps[OF m n1] u by (simp add: xy)
  qed
qed

lemma line_inv_start:
  "line_inv x0 y0 \<bar>x1 - x0\<bar> \<bar>y1 - y0\<bar> (if x0 < x1 then 1 else - 1) (if y0 < y1 then 1 else - 1)
     0 0 x0 y0 (\<bar>x1 - x0\<bar> - \<bar>y1 - y0\<bar>)"
  by (simp add: line_inv_def)

lemma fold_map_points:
  "fold (\<lambda>(x, y). plot x y) (map (\<lambda>(a, b). (f a, g b)) ijs) s = fold (\<lambda>(a, b). plot (f a) (g b)) ijs s"
  by (induction ijs arbitrary: s) auto

lemma drawLine_with_eq:
  "drawLine_with plot x0 y0 x1 y1 s = Some (fold (\<lambda>(x, y). plot x y) (line_pixels x0 y0 x1 y1) s)"
proof -
  let ?dx = "\<bar>x1 - x0\<bar>" and ?dy = "\<bar>y1 - y0\<bar>"
  let ?sx = "if x0 < x1 then 1 else - 1 :: int" and ?sy = "if y0 < y1 then 1 else - 1 :: int"
  have t: "x0 + ?sx * ?dx = x1" "y0 + ?sy * ?dy = y1" by simp_all
  have "drawLine_with plot x0 y0 x1 y1 s = drawLine_loop plot x1 y1 ?dx ?dy ?sx ?sy x0 y0 (?dx - ?dy) s"
    unfolding drawLine_with_def by (simp add: Let_def)
  also have "\<dots> = drawLine_loop plot (x0 + ?sx * ?dx) (y0 + ?sy * ?dy) ?dx ?dy ?sx ?sy x0 y0 (?dx - ?dy) s"
    unfolding t ..
  also have "\<dots> = Some (fold (\<lambda>(a, b). plot (x0 + ?sx * a) (y0 + ?sy * b)) (line_steps ?dx ?dy 0 0) s)"
    by (rule drawLine_loop_runs[OF line_inv_start])
  finally show ?thesis unfolding line_pixels_def fold_map_points .
qed

lemma fold_snoc: "fold (\<lambda>(x, y) ps. ps @ [(x, y)]) xs acc = acc @ xs"
  by (induction xs arbitrary: acc) auto

lemma drawLine_points_eq: "drawLine_points (x0, y0) (x1, y1) = Some (line_pixels x0 y0 x1 y1)"
  unfolding drawLine_points_def fst_conv snd_conv drawLine_with_eq fold_snoc by simp

lemma line_pixels_props:
  "line_pixels x0 y0 x1 y1 \<noteq> [] \<and> hd (line_pixels x0 y0 x1 y1) = (x0, y0)
   \<and> last (line_pixels x0 y0 x1 y1) = (x1, y1)
   \<and> length (line_pixels x0 y0 x1 y1) \<le> nat (\<bar>x1 - x0\<bar> + \<bar>y1 - y0\<bar>) + 1"
proof -
  let ?st = "line_steps \<bar>x1 - x0\<bar> \<bar>y1 - y0\<bar> 0 0"
  have ne: "?st \<noteq> []" by (subst line_steps.simps) simp
  from line_steps_props[OF line_inv_start[of x0 y0 x1 y1]]
  have "hd ?st = (0, 0)" "last ?st = (\<bar>x1 - x0\<bar>, \<bar>y1 - y0\<bar>)"
    "length ?st \<le> nat (\<bar>x1 - x0\<bar> + \<bar>y1 - y0\<bar>) + 1" by simp_all
  with ne show ?thesis unfolding line_pixels_def by (simp add: hd_map last_map)
qed

lemma line_reflect_coord:
  fixes a x0 x1 :: int
  assumes "0 \<le> a" "a \<le> \<bar>x1 - x0\<bar>"
  shows "x1 + (if x1 < x0 then 1 else - 1) * a = x0 + x1 - (x0 + (if x0 < x1 then 1 else - 1) * a)"
proof (cases "x0 = x1")
  case True
  with assms have "a = 0" by simp
  with True show ?thesis by simp
next
  case False
  then show ?thesis by (cases "x0 < x1") simp_all
qed

lemma line_pixels_reflect:
  "line_pixels x1 y1 x0 y0 = map (\<lambda>(x, y). (x0 + x1 - x, y0 + y1 - y)) (line_pixels x0 y0 x1 y1)"
proof -
  let ?dx = "\<bar>x1 - x0\<bar>" and ?dy = "\<bar>y1 - y0\<bar>"
  let ?st = "line_steps ?dx ?dy 0 0"
  let ?emb = "\<lambda>(a, b). (x0 + (if x0 < x1 then 1 else - 1) * a, y0 + (if y0 < y1 then 1 else - 1) * b)"
  let ?emb' = "\<lambda>(a, b). (x1 + (if x1 < x0 then 1 else - 1) * a, y1 + (if y1 < y0 then 1 else - 1) * b)"
  let ?refl = "\<lambda>(x, y). (x0 + x1 - x, y0 + y1 - y)"
  have B: "list_all (\<lambda>(a, b). 0 \<le> a \<and> a \<le> ?dx \<and> 0 \<le> b \<and> b \<le> ?dy) ?st"
    using line_steps_props[OF line_inv_start[of x0 y0 x1 y1]] by simp
  have st': "line_steps \<bar>x0 - x1\<bar> \<bar>y0 - y1\<bar> 0 0 = ?st"
    by (simp only: abs_minus_commute[of x0 x1] abs_minus_commute[of y0 y1])
  have "map ?emb' ?st = map (\<lambda>ij. ?refl (?emb ij)) ?st"
  proof (rule map_cong[OF refl])
    fix ij assume m: "ij \<in> set ?st"
    obtain a b where ij: "ij = (a, b)" by (cases ij)
    from B m ij have b: "0 \<le> a" "a \<le> ?dx" "0 \<le> b" "b \<le> ?dy"
      unfolding list_all_iff by auto
    show "?emb' ij = ?refl (?emb ij)"
      unfolding ij prod.case
      using line_reflect_coord[OF b(1,2)] line_reflect_coord[OF b(3,4)] by (rule arg_cong2)
  qed
  then show ?thesis unfolding line_pixels_def st' map_map comp_def .
qed

text \<open>
  Claim C10. For all integer end points the loop of \<^verbatim>\<open>drawLine\<close> returns: it visits
  finitely many pixels, the first \<open>(x0, y0)\<close>, the last \<open>(x1, y1)\<close>, at most
  \<open>|x1 - x0| + |y1 - y0| + 1\<close> of them, and the canvas it returns has had
  \<^verbatim>\<open>drawPixel\<close> applied once for each pixel visited, in order.
\<close>

theorem drawLine_terminates:
  "\<exists>ps. drawLine_points (x0, y0) (x1, y1) = Some ps \<and> ps \<noteq> [] \<and> hd ps = (x0, y0)
     \<and> last ps = (x1, y1) \<and> length ps \<le> nat (\<bar>x1 - x0\<bar> + \<bar>y1 - y0\<bar>) + 1
     \<and> drawLine x0 y0 x1 y1 color c = Some (fold (\<lambda>(x, y). drawPixel x y color) ps c)"
  using line_pixels_props[of x0 y0 x1 y1]
  by (intro exI[of _ "line_pixels x0 y0 x1 y1"])
     (simp add: drawLine_points_eq drawLine_def drawLine_with_eq)

text \<open>
  Claim C5, as stated, fails: from \<open>(0, 0)\<close> to \<open>(2, 1)\<close> the line goes through
  \<open>(1, 0)\<close>, from \<open>(2, 1)\<close> to \<open>(0, 0)\<close> it goes through \<open>(1, 1)\<close>.
\<close>

theorem drawLine_not_symmetric:
  "map_option set (drawLine_points (0, 0) (2, 1)) \<noteq> map_option set (drawLine_points (2, 1) (0, 0))"
proof -
  have a: "drawLine_points (0, 0) (2, 1) = Some [(0, 0), (1, 0), (2, 1)]"
    by (simp add: drawLine_points_def drawLine_with_def drawLine_loop.simps)
  have b: "drawLine_points (2, 1) (0, 0) = Some [(2, 1), (1, 1), (0, 0)]"
    by (simp add: drawLine_points_def drawLine_with_def drawLine_loop.simps)
  let ?p = "[(0, 0), (1, 0), (2, 1)] :: (int \<times> int) list"
  let ?q = "[(2, 1), (1, 1), (0, 0)] :: (int \<times> int) list"
  have "(1, 0) \<in> set ?p" by simp
  moreover have "(1, 0) \<notin> set ?q" by simp
  ultimately have "set ?p \<noteq> set ?q" by metis
  then show ?thesis unfolding a b by simp
qed

text \<open>
  Claim C5, amended. The line from \<open>B\<close> to \<open>A\<close> is the line from \<open>A\<close> to \<open>B\<close> reflected
  through the midpoint of the two points, pixel for pixel in the order visited: the pixel
  \<open>p\<close> of one is the pixel \<open>A + B - p\<close> of the other. So the two sets are point
  reflections of each other.
\<close>

theorem drawLine_reversed_is_reflection:
  "\<exists>ps qs. drawLine_points (x0, y0) (x1, y1) = Some ps
     \<and> drawLine_points (x1, y1) (x0, y0) = Some qs
     \<and> qs = map (\<lambda>(x, y). (x0 + x1 - x, y0 + y1 - y)) ps
     \<and> set qs = (\<lambda>(x, y). (x0 + x1 - x, y0 + y1 - y)) ` set ps"
proof -
  let ?r = "\<lambda>(x, y). (x0 + x1 - x, y0 + y1 - y)"
  have "drawLine_points (x1, y1) (x0, y0) = Some (map ?r (line_pixels x0 y0 x1 y1))"
    unfolding drawLine_points_eq by (simp only: line_pixels_reflect[of x1 y1 x0 y0])
  moreover have "set (map ?r (line_pixels x0 y0 x1 y1)) = ?r ` set (line_pixels x0 y0 x1 y1)"
    by (rule set_map)
  ultimately show ?thesis
    using drawLine_points_eq[of x0 y0 x1 y1] by blast
qed

subsection \<open>Flood fill\<close>

lemma pixel_index_cell:
  "in_grid w h p \<Longrightarrow> pixel_index w (fst p) (snd p) = 4 * cell w p"
  unfolding in_grid_def pixel_index_def cell_def
  by (simp add: nat_add_distrib nat_mult_distrib)

lemma cell_less: "in_grid w h p \<Longrightarrow> cell w p < w * h"
proof -
  assume g: "in_grid w h p"
  then have a: "nat (fst p) < w" "nat (snd p) < h" by (auto simp add: in_grid_def)
  then have "nat (snd p) * w + nat (fst p) < nat (snd p) * w + w" by simp
  also have "\<dots> = (nat (snd p) + 1) * w" by simp
  also have "\<dots> \<le> h * w" using a by (intro mult_le_mono1) simp
  finally show ?thesis by (simp add: cell_def mult.commute)
qed

lemma cell_inj:
  assumes "in_grid w h p" "in_grid w h q" "cell w p = cell w q"
  shows "p = q"
proof -
  from assms have a: "nat (fst p) < w" "nat (fst q) < w" "0 \<le> fst p" "0 \<le> fst q" "0 \<le> snd p" "0 \<le> snd q"
    by (auto simp add: in_grid_def)
  from assms(3) have e: "nat (snd p) * w + nat (fst p) = nat (snd q) * w + nat (fst q)"
    by (simp add: cell_def)
  from arg_cong[OF e, of "\<lambda>n. n mod w"] a have "nat (fst p) = nat (fst q)" by simp
  moreover from arg_cong[OF e, of "\<lambda>n. n div w"] a have "nat (snd p) = nat (snd q)" by simp
  ultimately show ?thesis using a by (simp add: prod_eq_iff eq_nat_nat_iff)
qed

lemma in_grid_iff: "in_grid w h (x, y) = (\<not> (x < 0 \<or> x \<ge> int w \<or> y < 0 \<or> y \<ge> int h))"
  by (auto simp add: in_grid_def)

lemma fill_write_other:
  assumes "k \<noteq> k'" "j < 4"
  shows "(d[4 * k := a, 4 * k + 1 := b, 4 * k + 2 := c]) ! (4 * k' + j) = d ! (4 * k' + j)"
proof -
  have "4 * k' + j \<noteq> 4 * k" "4 * k' + j \<noteq> 4 * k + 1" "4 * k' + j \<noteq> 4 * k + 2"
    using assms by arith+
  then show ?thesis by (simp add: nth_list_update)
qed

lemma fill_write_same:
  "4 * k + 2 < length d \<Longrightarrow> rgb_at (d[4 * k := a, 4 * k + 1 := b, 4 * k + 2 := c]) (4 * k) = (a, b, c)"
  by (simp add: rgb_at_def)

lemma rgb_at_cong:
  "(\<forall>j<4. d ! (4 * k + j) = d' ! (4 * k + j)) \<Longrightarrow> rgb_at d (4 * k) = rgb_at d' (4 * k)"
proof -
  assume a: "\<forall>j<4. d ! (4 * k + j) = d' ! (4 * k + j)"
  from a[rule_format, of 0] a[rule_format, of 1] a[rule_format, of 2]
  show ?thesis by (simp add: rgb_at_def)
qed

lemma floodFill_loop_simp_nil: "floodFill_loop w h t f [] data = Some data"
  by (subst floodFill_loop.simps) simp

lemma floodFill_loop_simp_skip:
  "\<not> in_grid w h (x, y) \<or> rgb_at data (4 * cell w (x, y)) \<noteq> t
   \<Longrightarrow> floodFill_loop w h t f ((x, y) # rest) data = floodFill_loop w h t f rest data"
  apply (subst floodFill_loop.simps)
  apply (cases "in_grid w h (x, y)")
   apply (frule pixel_index_cell)
   apply (simp add: in_grid_iff Let_def)
  apply (simp add: in_grid_iff)
  done

lemma floodFill_loop_simp_fill:
  "in_grid w h (x, y) \<Longrightarrow> rgb_at data (4 * cell w (x, y)) = t
   \<Longrightarrow> floodFill_loop w h t f ((x, y) # rest) data
       = floodFill_loop w h t f (neighbours (x, y) @ rest)
           (data[4 * cell w (x, y) := fst f, 4 * cell w (x, y) + 1 := fst (snd f),
                 4 * cell w (x, y) + 2 := snd (snd f)])"
  apply (subst floodFill_loop.simps)
  apply (frule pixel_index_cell)
  apply (simp add: in_grid_iff Let_def neighbours_def)
  done

lemma unchanged_outsideD:
  "unchanged_outside w h R d0 d \<Longrightarrow> in_grid w h p \<Longrightarrow> p \<notin> R \<Longrightarrow> j < 4
   \<Longrightarrow> d ! (4 * cell w p + j) = d0 ! (4 * cell w p + j)"
  unfolding unchanged_outside_def by blast

lemma region_member:
  assumes "in_grid w h q" "rgb_at d0 (4 * cell w q) = t"
    and "q = seed \<or> (\<exists>p\<in>region w h d0 t seed. q \<in> set (neighbours p))"
  shows "q \<in> region w h d0 t seed"
proof -
  have c: "rgb_at d0 (pixel_index w (fst q) (snd q)) = t"
    using assms(1,2) by (simp add: pixel_index_cell)
  from assms(3) show ?thesis
  proof
    assume "q = seed"
    with assms(1) c show ?thesis by (auto intro: region.seed)
  next
    assume "\<exists>p\<in>region w h d0 t seed. q \<in> set (neighbours p)"
    then obtain p where "p \<in> region w h d0 t seed" "q \<in> set (neighbours p)" by blast
    with assms(1) c show ?thesis by (auto intro: region.step)
  qed
qed

lemma floodFill_loop_frame:
  assumes run: "floodFill_loop w h t f stack data = Some r"
    and u: "unchanged_outside w h (region w h d0 t seed) d0 data"
    and len: "length d0 = w * h * 4"
    and st: "\<forall>q\<in>set stack. q = seed \<or> (\<exists>p\<in>region w h d0 t seed. q \<in> set (neighbours p))"
  shows "unchanged_outside w h (region w h d0 t seed) d0 r"
proof -
  let ?P = "\<lambda>w h t (f::rgb) stack data r.
      unchanged_outside w h (region w h d0 t seed) d0 data \<and> length d0 = w * h * 4
      \<and> (\<forall>q\<in>set stack. q = seed \<or> (\<exists>p\<in>region w h d0 t seed. q \<in> set (neighbours p)))
      \<longrightarrow> unchanged_outside w h (region w h d0 t seed) d0 r"
  have "?P w h t f stack data r"
  proof (rule floodFill_loop.raw_induct[where P = ?P, OF _ run], goal_cases)
    case (1 ff w h t f stack data r)
    note IH = 1(1) and eq = 1(2)
    let ?R = "region w h d0 t seed"
    show ?case
    proof (intro impI, elim conjE)
      assume u: "unchanged_outside w h ?R d0 data" and len: "length d0 = w * h * 4"
        and st: "\<forall>q\<in>set stack. q = seed \<or> (\<exists>p\<in>?R. q \<in> set (neighbours p))"
      show "unchanged_outside w h ?R d0 r"
      proof (cases stack)
        case Nil
        with eq u show ?thesis by simp
      next
        case (Cons q rest)
        obtain x y where q: "q = (x, y)" by (cases q)
        have st': "\<forall>q\<in>set rest. q = seed \<or> (\<exists>p\<in>?R. q \<in> set (neighbours p))"
          using st Cons by simp
        show ?thesis
        proof (cases "in_grid w h (x, y) \<and> rgb_at data (4 * cell w (x, y)) = t")
          case False
          then have "ff w h t f rest data = Some r"
            using eq Cons q
            by (cases "in_grid w h (x, y)")
               (auto simp add: in_grid_iff Let_def pixel_index_cell[of w h "(x, y)", simplified])
          from IH[OF this] u len st' show ?thesis by simp
        next
          case True
          then have g: "in_grid w h (x, y)" and c: "rgb_at data (4 * cell w (x, y)) = t" by simp_all
          let ?k = "cell w (x, y)"
          let ?d = "data[4 * ?k := fst f, 4 * ?k + 1 := fst (snd f), 4 * ?k + 2 := snd (snd f)]"
          from g have ng: "\<not> (x < 0 \<or> int w \<le> x \<or> y < 0 \<or> int h \<le> y)"
            by (simp add: in_grid_iff)
          have pi: "pixel_index w x y = 4 * ?k" using pixel_index_cell[OF g] by simp
          have run': "ff w h t f (neighbours (x, y) @ rest) ?d = Some r"
            using eq unfolding Cons q by (simp add: ng pi c Let_def neighbours_def)
          have inR: "(x, y) \<in> ?R"
          proof (rule ccontr)
            assume n: "(x, y) \<notin> ?R"
            with u g have "\<forall>j<4. data ! (4 * ?k + j) = d0 ! (4 * ?k + j)"
              using unchanged_outsideD by blast
            from rgb_at_cong[OF this] c have "rgb_at d0 (4 * ?k) = t" by simp
            from region_member[OF g this] st Cons q have "(x, y) \<in> ?R" by simp
            with n show False by simp
          qed
          have u': "unchanged_outside w h ?R d0 ?d"
            unfolding unchanged_outside_def
          proof (intro conjI allI impI)
            show "length ?d = length d0" using u by (simp add: unchanged_outside_def)
          next
            fix p j assume a: "in_grid w h p \<and> p \<notin> ?R" and j: "j < (4::nat)"
            with inR have "p \<noteq> (x, y)" by auto
            with a g have "?k \<noteq> cell w p" using cell_inj by blast
            from fill_write_other[OF this j] have "?d ! (4 * cell w p + j) = data ! (4 * cell w p + j)" .
            also have "\<dots> = d0 ! (4 * cell w p + j)" using unchanged_outsideD[OF u _ _ j] a by blast
            finally show "?d ! (4 * cell w p + j) = d0 ! (4 * cell w p + j)" .
          qed
          have st'': "\<forall>q\<in>set (neighbours (x, y) @ rest). q = seed \<or> (\<exists>p\<in>?R. q \<in> set (neighbours p))"
            using st' inR by auto
          from IH[OF run'] u' len st'' show ?thesis by simp
        qed
      qed
    qed
  qed
  with u len st show ?thesis by simp
qed

lemma finite_target_cells: "finite (target_cells w h t d)"
proof (rule finite_subset)
  show "target_cells w h t d \<subseteq> {0..<int w} \<times> {0..<int h}"
    by (auto simp add: target_cells_def in_grid_def)
  show "finite ({0..<int w} \<times> {0..<int h})" by simp
qed

lemma target_cells_fill:
  assumes g: "in_grid w h q" and c: "rgb_at d (4 * cell w q) = t" and ne: "t \<noteq> f"
    and len: "length d = w * h * 4"
  shows "target_cells w h t (d[4 * cell w q := fst f, 4 * cell w q + 1 := fst (snd f),
            4 * cell w q + 2 := snd (snd f)]) = target_cells w h t d - {q}"
proof -
  let ?k = "cell w q"
  let ?d = "d[4 * ?k := fst f, 4 * ?k + 1 := fst (snd f), 4 * ?k + 2 := snd (snd f)]"
  have "4 * ?k + 2 < length d" using cell_less[OF g] len by simp
  from fill_write_same[OF this] have same: "rgb_at ?d (4 * ?k) = f" by simp
  have other: "rgb_at ?d (4 * cell w p) = rgb_at d (4 * cell w p)" if "in_grid w h p" "p \<noteq> q" for p
  proof -
    from that g have ne': "?k \<noteq> cell w p" using cell_inj by blast
    have "\<forall>j<4. ?d ! (4 * cell w p + j) = d ! (4 * cell w p + j)"
      by (intro allI impI) (rule fill_write_other[OF ne'])
    then show ?thesis by (rule rgb_at_cong)
  qed
  show ?thesis
  proof (rule set_eqI)
    fix p
    show "p \<in> target_cells w h t ?d \<longleftrightarrow> p \<in> target_cells w h t d - {q}"
    proof (cases "p = q")
      case True
      with same ne show ?thesis by (simp add: target_cells_def)
    next
      case False
      show ?thesis
      proof (cases "in_grid w h p")
        case True
        from other[OF True False] False show ?thesis by (simp add: target_cells_def True)
      next
        case False
        then show ?thesis by (simp add: target_cells_def)
      qed
    qed
  qed
qed

lemma floodFill_loop_terminates:
  assumes "t \<noteq> f" "length data = w * h * 4"
  shows "\<exists>r. floodFill_loop w h t f stack data = Some r"
  using assms(2)
proof (induction "4 * card (target_cells w h t data) + length stack" arbitrary: stack data
    rule: less_induct)
  case less
  show ?case
  proof (cases stack)
    case Nil
    then show ?thesis by (simp add: floodFill_loop_simp_nil)
  next
    case (Cons q rest)
    obtain x y where q: "q = (x, y)" by (cases q)
    show ?thesis
    proof (cases "in_grid w h (x, y) \<and> rgb_at data (4 * cell w (x, y)) = t")
      case False
      then have "floodFill_loop w h t f stack data = floodFill_loop w h t f rest data"
        unfolding Cons q by (intro floodFill_loop_simp_skip) blast
      moreover have "\<exists>r. floodFill_loop w h t f rest data = Some r"
        by (rule less.hyps) (simp_all add: Cons less.prems)
      ultimately show ?thesis by simp
    next
      case True
      then have g: "in_grid w h (x, y)" and c: "rgb_at data (4 * cell w (x, y)) = t" by simp_all
      let ?k = "cell w (x, y)"
      let ?d = "data[4 * ?k := fst f, 4 * ?k + 1 := fst (snd f), 4 * ?k + 2 := snd (snd f)]"
      have e: "floodFill_loop w h t f stack data
          = floodFill_loop w h t f (neighbours (x, y) @ rest) ?d"
        unfolding Cons q by (rule floodFill_loop_simp_fill[OF g c])
      have tc: "target_cells w h t ?d = target_cells w h t data - {(x, y)}"
        by (rule target_cells_fill[OF g c assms(1) less.prems])
      have m: "(x, y) \<in> target_cells w h t data" using g c by (simp add: target_cells_def)
      then have "card (target_cells w h t data) > 0"
        using finite_target_cells[of w h t data] by (auto simp add: card_gt_0_iff)
      then have "4 * card (target_cells w h t ?d) + length (neighbours (x, y) @ rest)
          < 4 * card (target_cells w h t data) + length stack"
        unfolding tc using m finite_target_cells[of w h t data]
        by (simp add: Cons neighbours_def)
      from less.hyps[OF this] less.prems have "\<exists>r. floodFill_loop w h t f (neighbours (x, y) @ rest) ?d = Some r"
        by simp
      with e show ?thesis by simp
    qed
  qed
qed

lemma neighbours_sym: "n \<in> set (neighbours q) \<Longrightarrow> q \<in> set (neighbours n)"
  by (auto simp add: neighbours_def)

lemma rgb_write_id:
  "rgb_at d i = t \<Longrightarrow> d[i := fst t, i + 1 := fst (snd t), i + 2 := snd (snd t)] = d"
  by (auto simp add: rgb_at_def)

lemma floodFill_loop_diverges:
  assumes "stuck w h t stack data"
  shows "floodFill_loop w h t t stack data = None"
proof (rule ccontr)
  assume "floodFill_loop w h t t stack data \<noteq> None"
  then obtain r where run: "floodFill_loop w h t t stack data = Some r" by auto
  let ?P = "\<lambda>w h t (f::rgb) stack data (r::nat list). \<not> (f = t \<and> stuck w h t stack data)"
  have "?P w h t t stack data r"
  proof (rule floodFill_loop.raw_induct[where P = ?P, OF _ run], goal_cases)
    case (1 ff w h t f stack data r)
    note IH = 1(1) and eq = 1(2)
    show ?case
    proof
      assume a: "f = t \<and> stuck w h t stack data"
      then have f: "f = t" and s: "stuck w h t stack data" by simp_all
      show False
      proof (cases stack)
        case Nil
        with s show False by (simp add: stuck_def)
      next
        case (Cons q rest)
        obtain x y where q: "q = (x, y)" by (cases q)
        show ?thesis
        proof (cases "in_grid w h (x, y) \<and> rgb_at data (4 * cell w (x, y)) = t")
          case False
          then have r: "ff w h t f rest data = Some r"
            using eq Cons q
            by (cases "in_grid w h (x, y)")
               (auto simp add: in_grid_iff Let_def pixel_index_cell[of w h "(x, y)", simplified])
          from s obtain p where p: "p \<in> set stack" "in_grid w h p" "rgb_at data (4 * cell w p) = t"
            "\<exists>n\<in>set (neighbours p). in_grid w h n \<and> rgb_at data (4 * cell w n) = t"
            unfolding stuck_def by blast
          from p(2,3) False have "p \<noteq> (x, y)" by blast
          with p(1) have "p \<in> set rest" unfolding Cons q by simp
          with p(2,3,4) have "stuck w h t rest data" unfolding stuck_def by blast
          with IH[OF r] f show False by simp
        next
          case True
          then have g: "in_grid w h (x, y)" and c: "rgb_at data (4 * cell w (x, y)) = t" by simp_all
          let ?k = "cell w (x, y)"
          from g have ng: "\<not> (x < 0 \<or> int w \<le> x \<or> y < 0 \<or> int h \<le> y)"
            by (simp add: in_grid_iff)
          have pi: "pixel_index w x y = 4 * ?k" using pixel_index_cell[OF g] by simp
          have r: "ff w h t f (neighbours (x, y) @ rest) data = Some r"
            using eq unfolding Cons q f
            by (simp add: ng pi c Let_def neighbours_def rgb_write_id[OF c, simplified])
          from s obtain p n where p: "p \<in> set stack" "in_grid w h p" "rgb_at data (4 * cell w p) = t"
            "n \<in> set (neighbours p)" "in_grid w h n" "rgb_at data (4 * cell w n) = t"
            unfolding stuck_def by blast
          have "stuck w h t (neighbours (x, y) @ rest) data"
          proof (cases "p = (x, y)")
            case True
            have 1: "n \<in> set (neighbours (x, y) @ rest)" using p(4) True by simp
            have 2: "(x, y) \<in> set (neighbours n)" using neighbours_sym[OF p(4)] True by simp
            have "\<exists>m\<in>set (neighbours n). in_grid w h m \<and> rgb_at data (4 * cell w m) = t"
              using 2 g c by blast
            with 1 p(5,6) show ?thesis unfolding stuck_def by blast
          next
            case False
            with p(1) have 1: "p \<in> set (neighbours (x, y) @ rest)" unfolding Cons q by simp
            have "\<exists>m\<in>set (neighbours p). in_grid w h m \<and> rgb_at data (4 * cell w m) = t"
              using p(4,5,6) by blast
            with 1 p(2,3) show ?thesis unfolding stuck_def by blast
          qed
          with IH[OF r] f show False by simp
        qed
      qed
    qed
  qed
  with assms show False by simp
qed

lemma in_bounds_grid: "in_bounds c x y = in_grid (cv_width c) (cv_height c) (x, y)"
  by (simp add: in_bounds_def in_grid_def)

lemma cell_div_mod:
  assumes "k < w * h"
  shows "in_grid w h (int (k mod w), int (k div w))" "cell w (int (k mod w), int (k div w)) = k"
proof -
  from assms have w: "0 < w" by (cases w) simp_all
  then have "k mod w < w" by simp
  moreover have "k div w < h" using assms w by (simp add: less_mult_imp_div_less mult.commute)
  ultimately show "in_grid w h (int (k mod w), int (k div w))" by (simp add: in_grid_def)
  show "cell w (int (k mod w), int (k div w)) = k" by (simp add: cell_def)
qed

lemma getImageData_full:
  assumes "wf_canvas c"
  shows "img_data (getImageData c 0 0 (cv_width c) (cv_height c)) = cv_data c"
proof (rule nth_equalityI)
  show "length (img_data (getImageData c 0 0 (cv_width c) (cv_height c))) = length (cv_data c)"
    using assms by (simp add: getImageData_def wf_canvas_def)
next
  fix i assume "i < length (img_data (getImageData c 0 0 (cv_width c) (cv_height c)))"
  then have i: "i < cv_width c * cv_height c * 4" by (simp add: getImageData_def)
  let ?w = "cv_width c" and ?k = "i div 4"
  from i have k: "?k < ?w * cv_height c" by simp
  note g = cell_div_mod[OF k]
  have "pixel_index ?w (int (?k mod ?w)) (int (?k div ?w)) = 4 * ?k"
    using pixel_index_cell[OF g(1)] g(2) by simp
  then show "img_data (getImageData c 0 0 (cv_width c) (cv_height c)) ! i = cv_data c ! i"
    using i g(1) by (simp add: getImageData_def Let_def in_bounds_grid)
qed

lemma putImageData_full:
  assumes "wf_canvas c" "length d = cv_width c * cv_height c * 4"
  shows "putImageData \<lparr>img_width = cv_width c, img_height = cv_height c, img_data = d\<rparr> 0 0 c
           = c\<lparr>cv_data := d\<rparr>"
proof -
  let ?w = "cv_width c"
  have "map (\<lambda>i. let k = i div 4; x = int (k mod ?w) - 0; y = int (k div ?w) - 0
         in if 0 \<le> x \<and> x < int ?w \<and> 0 \<le> y \<and> y < int (cv_height c)
            then d ! (pixel_index ?w x y + i mod 4)
            else cv_data c ! i) [0..<length (cv_data c)] = d"
  proof (rule nth_equalityI)
    show "length (map (\<lambda>i. let k = i div 4; x = int (k mod ?w) - 0; y = int (k div ?w) - 0
         in if 0 \<le> x \<and> x < int ?w \<and> 0 \<le> y \<and> y < int (cv_height c)
            then d ! (pixel_index ?w x y + i mod 4)
            else cv_data c ! i) [0..<length (cv_data c)]) = length d"
      using assms by (simp add: wf_canvas_def)
  next
    fix i assume "i < length (map (\<lambda>i. let k = i div 4; x = int (k mod ?w) - 0; y = int (k div ?w) - 0
         in if 0 \<le> x \<and> x < int ?w \<and> 0 \<le> y \<and> y < int (cv_height c)
            then d ! (pixel_index ?w x y + i mod 4)
            else cv_data c ! i) [0..<length (cv_data c)])"
    then have i: "i < ?w * cv_height c * 4" using assms by (simp add: wf_canvas_def)
    let ?k = "i div 4"
    from i have k: "?k < ?w * cv_height c" by simp
    note g = cell_div_mod[OF k]
    have pi: "pixel_index ?w (int (?k mod ?w)) (int (?k div ?w)) = 4 * ?k"
      using pixel_index_cell[OF g(1)] g(2) by simp
    from g(1) have b: "int (?k mod ?w) < int ?w" "int (?k div ?w) < int (cv_height c)"
      by (simp_all add: in_grid_def)
    show "map (\<lambda>i. let k = i div 4; x = int (k mod ?w) - 0; y = int (k div ?w) - 0
         in if 0 \<le> x \<and> x < int ?w \<and> 0 \<le> y \<and> y < int (cv_height c)
            then d ! (pixel_index ?w x y + i mod 4)
            else cv_data c ! i) [0..<length (cv_data c)] ! i = d ! i"
      using i assms(1) b pi by (simp add: wf_canvas_def Let_def)
  qed
  then show ?thesis by (simp add: putImageData_def cong: if_cong)
qed

lemma pixel_at_cell:
  "in_bounds c x y \<Longrightarrow> pixel_at c x y
     = map (\<lambda>j. cv_data c ! (4 * cell (cv_width c) (x, y) + j)) [0, 1, 2, 3]"
  using pixel_index_cell[of "cv_width c" "cv_height c" "(x, y)"]
  by (simp add: pixel_at_def in_bounds_grid)

lemma floodFill_unfold:
  assumes "wf_canvas c" "targetColor \<noteq> fillColor" "hexToRgb targetColor = Some t"
    "hexToRgb fillColor = Some f"
  shows "floodFill startX startY targetColor fillColor c
     = (case floodFill_loop (cv_width c) (cv_height c) t f [(startX, startY)] (cv_data c) of
          None \<Rightarrow> None
        | Some d \<Rightarrow> Some (putImageData
            \<lparr>img_width = cv_width c, img_height = cv_height c, img_data = d\<rparr> 0 0 c))"
  using assms getImageData_full[OF assms(1)]
  by (simp add: floodFill_def Let_def getImageData_def split: option.splits)

lemma region_target:
  "p \<in> region w h d t seed \<Longrightarrow> in_grid w h p \<and> rgb_at d (pixel_index w (fst p) (snd p)) = t"
  by (erule region.cases) simp_all

lemma hexToRgb_white: "hexToRgb ''#ffffff'' = Some (255, 255, 255)"
  "hexToRgb ''#FFFFFF'' = Some (255, 255, 255)"
  by (simp_all add: hexToRgb_def parseHex2_def hexDigit_def)

lemma floodFill_returns:
  assumes wf: "wf_canvas c"
    and ok: "targetColor = fillColor \<or> hexToRgb targetColor = None \<or> hexToRgb fillColor = None
            \<or> hexToRgb targetColor \<noteq> hexToRgb fillColor"
  shows "\<exists>c'. floodFill startX startY targetColor fillColor c = Some c'"
proof (cases "targetColor = fillColor \<or> hexToRgb targetColor = None \<or> hexToRgb fillColor = None")
  case True
  then have "floodFill startX startY targetColor fillColor c = Some c"
    by (auto simp add: floodFill_def Let_def split: option.splits)
  then show ?thesis by simp
next
  case False
  then obtain t f where ne: "targetColor \<noteq> fillColor" and t: "hexToRgb targetColor = Some t"
    and f: "hexToRgb fillColor = Some f" by auto
  from ok False t f have tf: "t \<noteq> f" by simp
  from wf have len: "length (cv_data c) = cv_width c * cv_height c * 4" by (simp add: wf_canvas_def)
  from floodFill_loop_terminates[OF tf len, of "[(startX, startY)]"]
  obtain r where "floodFill_loop (cv_width c) (cv_height c) t f [(startX, startY)] (cv_data c) = Some r"
    by blast
  then show ?thesis unfolding floodFill_unfold[OF wf ne t f] by simp
qed

lemma floodFill_outside:
  assumes wf: "wf_canvas c"
    and run: "floodFill startX startY targetColor fillColor c = Some c'"
  shows "cv_width c' = cv_width c \<and> cv_height c' = cv_height c \<and> wf_canvas c'
      \<and> (\<forall>x y. in_bounds c x y \<and> (x, y) \<notin> fill_region c targetColor (startX, startY)
            \<longrightarrow> pixel_at c' x y = pixel_at c x y)"
proof (cases "targetColor = fillColor \<or> hexToRgb targetColor = None \<or> hexToRgb fillColor = None")
  case True
  then have "floodFill startX startY targetColor fillColor c = Some c"
    by (auto simp add: floodFill_def Let_def split: option.splits)
  with wf run show ?thesis by simp
next
  case False
  then obtain t f where ne: "targetColor \<noteq> fillColor" and t: "hexToRgb targetColor = Some t"
    and f: "hexToRgb fillColor = Some f" by auto
  let ?w = "cv_width c" and ?h = "cv_height c" and ?d0 = "cv_data c"
  let ?R = "region ?w ?h ?d0 t (startX, startY)"
  note unf = floodFill_unfold[OF wf ne t f, of startX startY]
  from wf have len: "length ?d0 = ?w * ?h * 4" by (simp add: wf_canvas_def)
  have R: "fill_region c targetColor (startX, startY) = ?R" by (simp add: fill_region_def t)
  from run obtain d where d: "floodFill_loop ?w ?h t f [(startX, startY)] ?d0 = Some d"
    and c': "c' = putImageData \<lparr>img_width = ?w, img_height = ?h, img_data = d\<rparr> 0 0 c"
    unfolding unf by (auto split: option.splits)
  have u0: "unchanged_outside ?w ?h ?R ?d0 ?d0" by (simp add: unchanged_outside_def)
  have u: "unchanged_outside ?w ?h ?R ?d0 d"
    by (rule floodFill_loop_frame[OF d u0 len]) simp
  then have ld: "length d = ?w * ?h * 4" using len by (simp add: unchanged_outside_def)
  have c'': "c' = c\<lparr>cv_data := d\<rparr>" unfolding c' by (rule putImageData_full[OF wf ld])
  have "pixel_at c' x y = pixel_at c x y" if b: "in_bounds c x y" and n: "(x, y) \<notin> ?R" for x y
  proof -
    have b': "in_bounds c' x y" using b by (simp add: c'' in_bounds_def)
    from b have g: "in_grid ?w ?h (x, y)" by (simp add: in_bounds_grid)
    have "d ! (4 * cell ?w (x, y) + j) = ?d0 ! (4 * cell ?w (x, y) + j)" if "j < 4" for j
      by (rule unchanged_outsideD[OF u g n that])
    from this[of 0] this[of 1] this[of 2] this[of 3]
    show ?thesis unfolding pixel_at_cell[OF b] pixel_at_cell[OF b'] by (simp add: c'')
  qed
  then show ?thesis using ld unfolding R by (simp add: c'' wf_canvas_def)
qed

text \<open>
  Claim C8. On a well-formed canvas, for every seed and every pair of colours: whenever
  \<^verbatim>\<open>floodFill\<close> returns, the canvas keeps its size and every pixel outside the
  4-connected region of target-coloured pixels that holds the seed is byte for byte what
  it was; and it does return unless the two strings differ and denote the same colour.
\<close>

theorem floodFill_frame:
  assumes wf: "wf_canvas c"
  shows "(targetColor = fillColor \<or> hexToRgb targetColor = None \<or> hexToRgb fillColor = None
            \<or> hexToRgb targetColor \<noteq> hexToRgb fillColor
          \<longrightarrow> (\<exists>c'. floodFill startX startY targetColor fillColor c = Some c'))
     \<and> (\<forall>c'. floodFill startX startY targetColor fillColor c = Some c'
          \<longrightarrow> cv_width c' = cv_width c \<and> cv_height c' = cv_height c \<and> wf_canvas c'
              \<and> (\<forall>x y. in_bounds c x y \<and> (x, y) \<notin> fill_region c targetColor (startX, startY)
                    \<longrightarrow> pixel_at c' x y = pixel_at c x y))"
proof (rule conjI)
  show "targetColor = fillColor \<or> hexToRgb targetColor = None \<or> hexToRgb fillColor = None
            \<or> hexToRgb targetColor \<noteq> hexToRgb fillColor
          \<longrightarrow> (\<exists>c'. floodFill startX startY targetColor fillColor c = Some c')"
    by (rule impI) (rule floodFill_returns[OF wf])
  show "\<forall>c'. floodFill startX startY targetColor fillColor c = Some c'
          \<longrightarrow> cv_width c' = cv_width c \<and> cv_height c' = cv_height c \<and> wf_canvas c'
              \<and> (\<forall>x y. in_bounds c x y \<and> (x, y) \<notin> fill_region c targetColor (startX, startY)
                    \<longrightarrow> pixel_at c' x y = pixel_at c x y)"
    by (intro allI impI) (rule floodFill_outside[OF wf])
qed

theorem floodFill_frame_witness:
  "wf_canvas two_pixels
   \<and> (\<exists>c'. floodFill 0 0 ''#ffffff'' ''#ff0000'' two_pixels = Some c'
         \<and> pixel_at c' 1 0 = pixel_at two_pixels 1 0)"
proof -
  have wf: "wf_canvas two_pixels" by (simp add: wf_canvas_def two_pixels_def)
  have r: "hexToRgb ''#ff0000'' = Some (255, 0, 0)"
    by (simp add: hexToRgb_def parseHex2_def hexDigit_def)
  have b: "in_bounds two_pixels 1 0" by (simp add: in_bounds_def two_pixels_def)
  have n: "(1, 0) \<notin> fill_region two_pixels ''#ffffff'' (0, 0)"
  proof
    assume "(1, 0) \<in> fill_region two_pixels ''#ffffff'' (0, 0)"
    then have "(1, 0) \<in> region 2 1 [255, 255, 255, 255, 0, 0, 0, 255] (255, 255, 255) (0, 0)"
      by (simp add: fill_region_def hexToRgb_white two_pixels_def)
    from region_target[OF this] show False by (simp add: pixel_index_def rgb_at_def)
  qed
  have ne: "hexToRgb ''#ffffff'' \<noteq> hexToRgb ''#ff0000''" by (simp add: hexToRgb_white r)
  note th = floodFill_frame[OF wf, of "''#ffffff''" "''#ff0000''" 0 0]
  from th ne obtain c' where c': "floodFill 0 0 ''#ffffff'' ''#ff0000'' two_pixels = Some c'"
    by blast
  with th b n have "pixel_at c' 1 0 = pixel_at two_pixels 1 0" by blast
  with c' wf show ?thesis by blast
qed

lemma initial_data_nth:
  "i < 4 * n \<Longrightarrow> concat (replicate n [255, 255, 255, 255 :: nat]) ! i = 255"
proof -
  assume i: "i < 4 * n"
  have l: "length (concat (replicate n [255, 255, 255, 255 :: nat])) = 4 * n"
    by (induction n) simp_all
  have "set (concat (replicate n [255, 255, 255, 255 :: nat])) \<subseteq> {255}"
    by (induction n) simp_all
  moreover have "concat (replicate n [255, 255, 255, 255 :: nat]) ! i
      \<in> set (concat (replicate n [255, 255, 255, 255 :: nat]))"
    using i l by (intro nth_mem) simp
  ultimately show ?thesis by blast
qed

lemma wf_initial_canvas: "wf_canvas initial_canvas"
proof -
  have "length (concat (replicate n [255, 255, 255, 255 :: nat])) = 4 * n" for n
    by (induction n) simp_all
  then show ?thesis by (simp add: wf_canvas_def initial_canvas_def)
qed

lemma initial_rgb:
  assumes "in_grid 32 32 p"
  shows "rgb_at (cv_data initial_canvas) (4 * cell 32 p) = (255, 255, 255)"
proof -
  from cell_less[OF assms] have "4 * cell 32 p + 2 < 4 * (32 * 32)" by simp
  then show ?thesis
    by (simp add: rgb_at_def initial_canvas_def initial_data_nth)
qed

lemma getPixelColor_initial: "getPixelColor initial_canvas 0 0 = ''#ffffff''"
proof -
  have n: "cv_data initial_canvas ! i = 255" if "i < 4" for i
    using that by (simp add: initial_canvas_def initial_data_nth)
  have u: "[0..<4] = [0, 1, 2, 3 :: nat]" by code_simp
  have s: "cv_width initial_canvas = 32" "cv_height initial_canvas = 32"
    by (simp_all add: initial_canvas_def)
  have "img_data (getImageData initial_canvas 0 0 1 1) = [255, 255, 255, 255]"
    by (simp add: getImageData_def in_bounds_def pixel_index_def s u Let_def n)
  then show ?thesis by (simp add: getPixelColor_def byteHex_def hexChar_def)
qed

text \<open>
  Claim C7. The guard of \<^verbatim>\<open>floodFill\<close> compares the two colours as strings.
  \<^verbatim>\<open>getPixelColor\<close> prints lower-case digits and the palette holds upper-case ones, so
  filling the white canvas with the palette's \<^verbatim>\<open>#FFFFFF\<close> passes the guard with a fill
  colour equal to the target colour: every pixel filled still has the target colour, its
  neighbours are pushed again, and the loop never returns.
\<close>

theorem floodFill_same_colour_diverges:
  "getPixelColor initial_canvas 0 0 = ''#ffffff''
   \<and> hexToRgb ''#ffffff'' = hexToRgb ''#FFFFFF''
   \<and> floodFill 0 0 ''#ffffff'' ''#FFFFFF'' initial_canvas = None
   \<and> handleMouseDown (0, 0) now (initial_state\<lparr>activeTool := Fill, foregroundColor := ''#FFFFFF''\<rparr>) = None"
proof -
  have g0: "in_grid 32 32 (0, 0)" and g1: "in_grid 32 32 (1, 0)" by (simp_all add: in_grid_def)
  have "stuck 32 32 (255, 255, 255) [(0, 0)] (cv_data initial_canvas)"
    unfolding stuck_def using g0 g1 initial_rgb[OF g0] initial_rgb[OF g1]
    by (simp add: neighbours_def)
  from floodFill_loop_diverges[OF this]
  have d: "floodFill 0 0 ''#ffffff'' ''#FFFFFF'' initial_canvas = None"
    unfolding floodFill_unfold[OF wf_initial_canvas _ hexToRgb_white(1) hexToRgb_white(2), simplified]
    by (simp add: initial_canvas_def)
  have c: "getPixelCoords initial_canvas (0, 0) = (0, 0)"
    by (simp add: getPixelCoords_def initial_canvas_def)
  have "handleMouseDown (0, 0) now (initial_state\<lparr>activeTool := Fill, foregroundColor := ''#FFFFFF''\<rparr>) = None"
    by (simp add: handleMouseDown_def initial_state_def c getPixelColor_initial d Let_def)
  with d show ?thesis by (simp add: getPixelColor_initial hexToRgb_white)
qed

subsection \<open>Circle\<close>

lemma pixel_write_other:
  assumes "k \<noteq> k'" "j < 4"
  shows "(d[4 * k := a, 4 * k + 1 := b, 4 * k + 2 := c, 4 * k + 3 := e]) ! (4 * k' + j) = d ! (4 * k' + j)"
proof -
  have "4 * k' + j \<noteq> 4 * k" "4 * k' + j \<noteq> 4 * k + 1" "4 * k' + j \<noteq> 4 * k + 2"
    "4 * k' + j \<noteq> 4 * k + 3"
    using assms by arith+
  then show ?thesis by (simp add: nth_list_update)
qed

lemma pixel_write_same:
  assumes "4 * k + 3 < length d"
  shows "map (\<lambda>j. (d[4 * k := a, 4 * k + 1 := b, 4 * k + 2 := c, 4 * k + 3 := e]) ! (4 * k + j))
           [0, 1, 2, 3] = [a, b, c, e]"
  using assms by simp

lemma drawPixel_effect:
  assumes wf: "wf_canvas c" and b: "in_bounds c x y" and col: "cssColor color = Some (r, g, bl)"
  shows "cv_width (drawPixel x y color c) = cv_width c"
    and "cv_height (drawPixel x y color c) = cv_height c"
    and "wf_canvas (drawPixel x y color c)"
    and "pixel_at (drawPixel x y color c) x y = [r, g, bl, 255]"
    and "in_bounds c x' y' \<Longrightarrow> (x', y') \<noteq> (x, y)
           \<Longrightarrow> pixel_at (drawPixel x y color c) x' y' = pixel_at c x' y'"
proof -
  let ?w = "cv_width c" and ?k = "cell (cv_width c) (x, y)"
  from b have g: "in_grid ?w (cv_height c) (x, y)" by (simp add: in_bounds_grid)
  have pi: "pixel_index ?w x y = 4 * ?k" using pixel_index_cell[OF g] by simp
  let ?d = "(cv_data c)[4 * ?k := r, 4 * ?k + 1 := g, 4 * ?k + 2 := bl, 4 * ?k + 3 := 255]"
  have e: "drawPixel x y color c = c\<lparr>cv_fillStyle := (r, g, bl), cv_data := ?d\<rparr>"
    using b by (simp add: drawPixel_def setFillStyle_def col fillRect1_def in_bounds_def pi Let_def)
  show "cv_width (drawPixel x y color c) = cv_width c"
    and "cv_height (drawPixel x y color c) = cv_height c"
    and wf': "wf_canvas (drawPixel x y color c)"
    using wf by (simp_all add: e wf_canvas_def)
  have b': "in_bounds (drawPixel x y color c) u v = in_bounds c u v" for u v
    by (simp add: e in_bounds_def)
  have l: "4 * ?k + 3 < length (cv_data c)" using cell_less[OF g] wf by (simp add: wf_canvas_def)
  show "pixel_at (drawPixel x y color c) x y = [r, g, bl, 255]"
    using pixel_at_cell[of "drawPixel x y color c" x y] b b' pixel_write_same[OF l, of r g bl 255]
    by (simp add: e)
  show "pixel_at (drawPixel x y color c) x' y' = pixel_at c x' y'"
    if b2: "in_bounds c x' y'" and ne: "(x', y') \<noteq> (x, y)"
  proof -
    from b2 have g2: "in_grid ?w (cv_height c) (x', y')" by (simp add: in_bounds_grid)
    from ne g g2 have n: "?k \<noteq> cell ?w (x', y')" using cell_inj by blast
    have "?d ! (4 * cell ?w (x', y') + j) = cv_data c ! (4 * cell ?w (x', y') + j)" if "j < 4" for j
      by (rule pixel_write_other[OF n that])
    from this[of 0] this[of 1] this[of 2] this[of 3]
    show ?thesis
      using pixel_at_cell[of "drawPixel x y color c" x' y'] pixel_at_cell[OF b2] b2 b'
      by (simp add: e)
  qed
qed

lemma circle_cell_effect:
  assumes wf: "wf_canvas c" and col: "cssColor color = Some (r, g, bl)"
  shows "cv_width (circle_cell cx cy rad color y x c) = cv_width c"
    and "cv_height (circle_cell cx cy rad color y x c) = cv_height c"
    and "wf_canvas (circle_cell cx cy rad color y x c)"
    and "in_bounds c px py \<Longrightarrow> pixel_at (circle_cell cx cy rad color y x c) px py
          = (if x * x + y * y \<le> rad * rad \<and> cx + x = px \<and> cy + y = py then [r, g, bl, 255]
             else pixel_at c px py)"
proof -
  show "cv_width (circle_cell cx cy rad color y x c) = cv_width c"
    and "cv_height (circle_cell cx cy rad color y x c) = cv_height c"
    and "wf_canvas (circle_cell cx cy rad color y x c)"
    using drawPixel_effect(1,2,3)[OF wf _ col, of "cx + x" "cy + y"] wf
    by (simp_all add: circle_cell_def in_bounds_def Let_def)
  show "pixel_at (circle_cell cx cy rad color y x c) px py
          = (if x * x + y * y \<le> rad * rad \<and> cx + x = px \<and> cy + y = py then [r, g, bl, 255]
             else pixel_at c px py)" if b: "in_bounds c px py"
  proof (cases "x * x + y * y \<le> rad * rad \<and> in_bounds c (cx + x) (cy + y)")
    case False
    then have "circle_cell cx cy rad color y x c = c"
      by (auto simp add: circle_cell_def in_bounds_def Let_def)
    with False b show ?thesis by auto
  next
    case True
    then have e: "circle_cell cx cy rad color y x c = drawPixel (cx + x) (cy + y) color c"
      by (auto simp add: circle_cell_def in_bounds_def Let_def)
    from True have b1: "in_bounds c (cx + x) (cy + y)" by simp
    show ?thesis
    proof (cases "cx + x = px \<and> cy + y = py")
      case True
      with drawPixel_effect(4)[OF wf b1 col] \<open>x * x + y * y \<le> rad * rad \<and> _\<close> show ?thesis
        by (simp add: e)
    next
      case False
      then have "(px, py) \<noteq> (cx + x, cy + y)" by auto
      from drawPixel_effect(5)[OF wf b1 col b this] False show ?thesis by (auto simp add: e)
    qed
  qed
qed

lemma circle_cells_fold:
  assumes wf: "wf_canvas c" and col: "cssColor color = Some (r, g, bl)"
  shows "cv_width (fold (\<lambda>(y, x). circle_cell cx cy rad color y x) L c) = cv_width c
     \<and> cv_height (fold (\<lambda>(y, x). circle_cell cx cy rad color y x) L c) = cv_height c
     \<and> wf_canvas (fold (\<lambda>(y, x). circle_cell cx cy rad color y x) L c)
     \<and> (\<forall>px py. in_bounds c px py \<longrightarrow>
           pixel_at (fold (\<lambda>(y, x). circle_cell cx cy rad color y x) L c) px py
             = (if \<exists>(y, x)\<in>set L. x * x + y * y \<le> rad * rad \<and> cx + x = px \<and> cy + y = py
                then [r, g, bl, 255] else pixel_at c px py))"
  using wf
proof (induction L arbitrary: c)
  case Nil
  then show ?case by simp
next
  case (Cons a L)
  obtain y x where a: "a = (y, x)" by (cases a)
  let ?c1 = "circle_cell cx cy rad color y x c"
  note ce = circle_cell_effect[OF Cons.prems col, where cx = cx and cy = cy and rad = rad
      and y = y and x = x]
  note IH = Cons.IH[OF ce(3)]
  have f: "fold (\<lambda>(y, x). circle_cell cx cy rad color y x) (a # L) c
      = fold (\<lambda>(y, x). circle_cell cx cy rad color y x) L ?c1" by (simp add: a)
  have b: "in_bounds ?c1 px py = in_bounds c px py" for px py
    by (simp add: in_bounds_def ce(1,2))
  show ?case
    unfolding f
  proof (intro conjI allI impI)
    show "cv_width (fold (\<lambda>(y, x). circle_cell cx cy rad color y x) L ?c1) = cv_width c"
      using IH ce(1) by simp
    show "cv_height (fold (\<lambda>(y, x). circle_cell cx cy rad color y x) L ?c1) = cv_height c"
      using IH ce(2) by simp
    show "wf_canvas (fold (\<lambda>(y, x). circle_cell cx cy rad color y x) L ?c1)"
      using IH by simp
  next
    fix px py assume ib: "in_bounds c px py"
    then have ib1: "in_bounds ?c1 px py" by (simp add: b)
    from IH ib1 have 1: "pixel_at (fold (\<lambda>(y, x). circle_cell cx cy rad color y x) L ?c1) px py
        = (if \<exists>(y, x)\<in>set L. x * x + y * y \<le> rad * rad \<and> cx + x = px \<and> cy + y = py
           then [r, g, bl, 255] else pixel_at ?c1 px py)" by blast
    show "pixel_at (fold (\<lambda>(y, x). circle_cell cx cy rad color y x) L ?c1) px py
        = (if \<exists>(y, x)\<in>set (a # L). x * x + y * y \<le> rad * rad \<and> cx + x = px \<and> cy + y = py
           then [r, g, bl, 255] else pixel_at c px py)"
      unfolding 1 ce(4)[OF ib] by (auto simp add: a)
  qed
qed

lemma fold_nested_product:
  "fold (\<lambda>y. fold (g y) xs) ys c = fold (\<lambda>(y, x). g y x) (List.product ys xs) c"
proof (induction ys arbitrary: c)
  case Nil
  then show ?case by simp
next
  case (Cons y ys)
  have "fold (\<lambda>(y, x). g y x) (map (Pair y) xs) c = fold (g y) xs c"
    by (simp add: fold_map comp_def)
  then show ?case using Cons.IH by simp
qed

lemma square_bound:
  fixes a r :: int
  assumes "a * a + b * b \<le> r * r" "0 \<le> r"
  shows "- r \<le> a \<and> a \<le> r"
proof -
  have "0 \<le> b * b" by simp
  with assms(1) have "a * a \<le> r * r" by linarith
  then have "a\<^sup>2 \<le> r\<^sup>2" by (simp add: power2_eq_square)
  then have "\<bar>a\<bar> \<le> \<bar>r\<bar>" by (simp add: abs_le_square_iff)
  with assms(2) show ?thesis by linarith
qed

text \<open>
  Claim C9. On a well-formed canvas, with a radius that is not negative and a colour
  the canvas reads, the filled branch of \<^verbatim>\<open>drawCircle\<close> keeps the size of the canvas and
  leaves every pixel \<open>(px, py)\<close> of it either painted with the colour, when
  \<open>(px - cx)\<^sup>2 + (py - cy)\<^sup>2 \<le> radius\<^sup>2\<close>, or as it was.
\<close>

theorem drawCircle_filled:
  assumes wf: "wf_canvas c" and rad: "0 \<le> radius" and col: "cssColor color = Some (r, g, b)"
  shows "cv_width (drawCircle cx cy radius color True c) = cv_width c
     \<and> cv_height (drawCircle cx cy radius color True c) = cv_height c
     \<and> (\<forall>px py. in_bounds c px py \<longrightarrow>
           pixel_at (drawCircle cx cy radius color True c) px py
             = (if (px - cx) * (px - cx) + (py - cy) * (py - cy) \<le> radius * radius
                then [r, g, b, 255] else pixel_at c px py))"
proof -
  let ?L = "List.product [- radius..radius] [- radius..radius]"
  have e: "drawCircle cx cy radius color True c
      = fold (\<lambda>(y, x). circle_cell cx cy radius color y x) ?L c"
    by (simp add: drawCircle_def fold_nested_product)
  have q: "(\<exists>(y, x)\<in>set ?L. x * x + y * y \<le> radius * radius \<and> cx + x = px \<and> cy + y = py)
      = ((px - cx) * (px - cx) + (py - cy) * (py - cy) \<le> radius * radius)" for px py
  proof
    assume "\<exists>(y, x)\<in>set ?L. x * x + y * y \<le> radius * radius \<and> cx + x = px \<and> cy + y = py"
    then obtain y x where "x * x + y * y \<le> radius * radius" "cx + x = px" "cy + y = py" by auto
    then show "(px - cx) * (px - cx) + (py - cy) * (py - cy) \<le> radius * radius" by auto
  next
    assume a: "(px - cx) * (px - cx) + (py - cy) * (py - cy) \<le> radius * radius"
    from square_bound[OF a rad] have x: "px - cx \<in> set [- radius..radius]" by simp
    from a have "(py - cy) * (py - cy) + (px - cx) * (px - cx) \<le> radius * radius" by simp
    from square_bound[OF this rad] have y: "py - cy \<in> set [- radius..radius]" by simp
    from x y have "(py - cy, px - cx) \<in> set ?L" by simp
    moreover have "cx + (px - cx) = px" "cy + (py - cy) = py" by simp_all
    ultimately show "\<exists>(y, x)\<in>set ?L. x * x + y * y \<le> radius * radius \<and> cx + x = px \<and> cy + y = py"
      using a by (intro bexI[of _ "(py - cy, px - cx)"]) simp_all
  qed
  from circle_cells_fold[OF wf col, where cx = cx and cy = cy and rad = radius and L = ?L]
  show ?thesis
    unfolding e q by simp
qed

theorem drawCircle_filled_witness:
  "wf_canvas two_pixels \<and> (0::int) \<le> 0 \<and> cssColor ''#ff0000'' = Some (255, 0, 0)
   \<and> in_bounds two_pixels 0 0 \<and> in_bounds two_pixels 1 0
   \<and> pixel_at (drawCircle 0 0 0 ''#ff0000'' True two_pixels) 0 0 = [255, 0, 0, 255]
   \<and> pixel_at (drawCircle 0 0 0 ''#ff0000'' True two_pixels) 1 0 = [0, 0, 0, 255]"
proof -
  have wf: "wf_canvas two_pixels" by (simp add: wf_canvas_def two_pixels_def)
  have r: "(0::int) \<le> 0" by simp
  have col: "cssColor ''#ff0000'' = Some (255, 0, 0)"
    by (simp add: cssColor_def hexToRgb_def parseHex2_def hexDigit_def)
  have b: "in_bounds two_pixels 0 0" "in_bounds two_pixels 1 0"
    by (simp_all add: in_bounds_def two_pixels_def)
  have p: "pixel_at two_pixels 1 0 = [0, 0, 0, 255]"
    by (simp add: pixel_at_def two_pixels_def pixel_index_def)
  from drawCircle_filled[OF wf r col, where cx = 0 and cy = 0] b p wf col
  show ?thesis by simp
qed

subsection \<open>Pointer gestures\<close>

lemma saveToHistory_fields:
  "historyIndex (saveToHistory t s) = historyIndex s + 1"
  "canvas (saveToHistory t s) = canvas s"
  "activeTool (saveToHistory t s) = activeTool s"
  "foregroundColor (saveToHistory t s) = foregroundColor s"
  "backgroundColor (saveToHistory t s) = backgroundColor s"
  "isDrawing (saveToHistory t s) = isDrawing s"
  "startPoint (saveToHistory t s) = startPoint s"
  "history (saveToHistory t s)
     = slice_last 50 (slice_to (history s) (historyIndex s + 1) @ [entry_of (canvas s) t])"
  by (simp_all add: saveToHistory_def Let_def entry_of_def)

lemma started_fields:
  "history started = [entry_of initial_canvas 0]" "historyIndex started = 0"
  "canvas started = initial_canvas" "foregroundColor started = ''#000000''"
  "isDrawing started = False"
  by (simp_all add: started_def saveToHistory_fields initial_state_def slice_to_def slice_last_def)

lemma getPixelCoords_origin: "getPixelCoords initial_canvas (0, 0) = (0, 0)"
  by (simp add: getPixelCoords_def initial_canvas_def)

lemma hexToRgb_black: "hexToRgb ''#000000'' = Some (0, 0, 0)"
  by (simp add: hexToRgb_def parseHex2_def hexDigit_def)

lemma timestamp_entry_of: "timestamp (entry_of c t) = t"
  by (simp add: entry_of_def)

lemma handleMouseUp_plain:
  assumes "isDrawing s" "activeTool s \<noteq> Line" "activeTool s \<noteq> Rectangle" "activeTool s \<noteq> Circle"
  shows "handleMouseUp ev t s = Some (saveToHistory t (s\<lparr>isDrawing := False\<rparr>))"
  using assms by (simp add: handleMouseUp_def Let_def)

lemma handleMouseDown_fill:
  assumes "activeTool s = Fill" "getPixelCoords (canvas s) ev = (x, y)"
    "floodFill x y (getPixelColor (canvas s) x y) (foregroundColor s) (canvas s) = Some c'"
  shows "handleMouseDown ev t s
     = Some (saveToHistory t (s\<lparr>startPoint := (x, y), currentPoint := (x, y), isDrawing := True,
               canvas := c'\<rparr>))"
  using assms by (simp add: handleMouseDown_def Let_def)

lemma handleMouseDown_eyedropper:
  assumes "activeTool s = Eyedropper" "getPixelCoords (canvas s) ev = (x, y)"
  shows "handleMouseDown ev t s
     = Some (s\<lparr>startPoint := (x, y), currentPoint := (x, y), isDrawing := True,
               foregroundColor := getPixelColor (canvas s) x y\<rparr>)"
  using assms by (simp add: handleMouseDown_def Let_def)

text \<open>
  Claim C2. \<^verbatim>\<open>handleMouseDown\<close> sets \<^verbatim>\<open>isDrawing\<close> before it looks at the tool, and its
  fill branch captures and returns with the flag still set; \<^verbatim>\<open>handleMouseUp\<close> then
  captures again. On the session after its first capture, a press and a release of the
  fill tool at pixel \<open>(0, 0)\<close> take the history from one entry to three and the index
  from 0 to 2: two captures for one gesture.
\<close>

theorem fill_gesture_captures_twice:
  "\<exists>s'. gesture (0, 0) 1 (0, 0) 2 (started\<lparr>activeTool := Fill\<rparr>) = Some s'
     \<and> historyIndex (started\<lparr>activeTool := Fill\<rparr>) = 0
     \<and> map timestamp (history (started\<lparr>activeTool := Fill\<rparr>)) = [0]
     \<and> historyIndex s' = 2
     \<and> map timestamp (history s') = [0, 1, 2]"
proof -
  let ?s0 = "started\<lparr>activeTool := Fill\<rparr>"
  have "hexToRgb ''#ffffff'' \<noteq> hexToRgb ''#000000''" by (simp add: hexToRgb_white hexToRgb_black)
  then obtain c' where c': "floodFill 0 0 ''#ffffff'' ''#000000'' initial_canvas = Some c'"
    using floodFill_returns[OF wf_initial_canvas, of "''#ffffff''" "''#000000''" 0 0] by blast
  let ?s1 = "saveToHistory 1 (?s0\<lparr>startPoint := (0, 0), currentPoint := (0, 0),
      isDrawing := True, canvas := c'\<rparr>)"
  have d: "handleMouseDown (0, 0) 1 ?s0 = Some ?s1"
    by (rule handleMouseDown_fill)
       (simp_all add: started_fields getPixelCoords_origin getPixelColor_initial c')
  let ?s2 = "saveToHistory 2 (?s1\<lparr>isDrawing := False\<rparr>)"
  have u: "handleMouseUp (0, 0) 2 ?s1 = Some ?s2"
    by (rule handleMouseUp_plain) (simp_all add: saveToHistory_fields)
  have g: "gesture (0, 0) 1 (0, 0) 2 ?s0 = Some ?s2"
    unfolding gesture_def d option.case by (rule u)
  have h: "historyIndex ?s2 = 2" "map timestamp (history ?s2) = [0, 1, 2]"
    by (simp_all add: saveToHistory_fields started_fields slice_to_def slice_last_def
          timestamp_entry_of)
  have h0: "historyIndex ?s0 = 0" "map timestamp (history ?s0) = [0]"
    by (simp_all add: started_fields timestamp_entry_of)
  show ?thesis by (intro exI[of _ ?s2] conjI g h h0)
qed

text \<open>
  Claim C3. The eyedropper branch of \<^verbatim>\<open>handleMouseDown\<close> returns with \<^verbatim>\<open>isDrawing\<close>
  set as well, so the release captures. On the session after its first capture, a press
  and a release of the eyedropper at pixel \<open>(0, 0)\<close> leave the canvas as it was and make
  the foreground colour the colour of the pixel, and they also add a history entry and
  advance the index.
\<close>

theorem eyedropper_gesture_captures:
  "\<exists>s'. gesture (0, 0) 1 (0, 0) 2 (started\<lparr>activeTool := Eyedropper\<rparr>) = Some s'
     \<and> canvas s' = canvas started
     \<and> foregroundColor s' = ''#ffffff''
     \<and> historyIndex (started\<lparr>activeTool := Eyedropper\<rparr>) = 0
     \<and> map timestamp (history (started\<lparr>activeTool := Eyedropper\<rparr>)) = [0]
     \<and> historyIndex s' = 1
     \<and> map timestamp (history s') = [0, 2]"
proof -
  let ?s0 = "started\<lparr>activeTool := Eyedropper\<rparr>"
  let ?s1 = "?s0\<lparr>startPoint := (0, 0), currentPoint := (0, 0),
      isDrawing := True, foregroundColor := getPixelColor (canvas ?s0) 0 0\<rparr>"
  have d: "handleMouseDown (0, 0) 1 ?s0 = Some ?s1"
    by (rule handleMouseDown_eyedropper) (simp_all add: started_fields getPixelCoords_origin)
  let ?s2 = "saveToHistory 2 (?s1\<lparr>isDrawing := False\<rparr>)"
  have u: "handleMouseUp (0, 0) 2 ?s1 = Some ?s2"
    by (rule handleMouseUp_plain) simp_all
  have g: "gesture (0, 0) 1 (0, 0) 2 ?s0 = Some ?s2"
    unfolding gesture_def d option.case by (rule u)
  have h: "canvas ?s2 = canvas started" "foregroundColor ?s2 = ''#ffffff''"
    "historyIndex ?s2 = 1" "map timestamp (history ?s2) = [0, 2]"
    by (simp_all add: saveToHistory_fields started_fields slice_to_def slice_last_def
          timestamp_entry_of getPixelColor_initial)
  have h0: "historyIndex ?s0 = 0" "map timestamp (history ?s0) = [0]"
    by (simp_all add: started_fields timestamp_entry_of)
  show ?thesis by (intro exI[of _ ?s2] conjI g h h0)
qed

subsection \<open>Clipboard\<close>

lemma cell_mod_div:
  assumes "in_grid w h p"
  shows "cell w p mod w = nat (fst p)" "cell w p div w = nat (snd p)"
proof -
  from assms have "nat (fst p) < w" by (auto simp add: in_grid_def)
  then show "cell w p mod w = nat (fst p)" "cell w p div w = nat (snd p)"
    by (simp_all add: cell_def)
qed

lemma putImageData_pixel:
  assumes wf: "wf_canvas c" and b: "in_bounds c x y"
  shows "pixel_at (putImageData img dx dy c) x y
     = (if 0 \<le> x - dx \<and> x - dx < int (img_width img) \<and> 0 \<le> y - dy \<and> y - dy < int (img_height img)
        then map (\<lambda>j. img_data img ! (pixel_index (img_width img) (x - dx) (y - dy) + j)) [0, 1, 2, 3]
        else pixel_at c x y)"
proof -
  let ?w = "cv_width c" and ?c' = "putImageData img dx dy c"
  let ?k = "cell ?w (x, y)"
  from b have g: "in_grid ?w (cv_height c) (x, y)" by (simp add: in_bounds_grid)
  have b': "in_bounds ?c' x y" using b by (simp add: putImageData_def in_bounds_def)
  have w': "cv_width ?c' = ?w" by (simp add: putImageData_def)
  from g have xy: "0 \<le> x" "0 \<le> y" by (simp_all add: in_grid_def)
  have l: "4 * ?k + j < length (cv_data c)" if "j < 4" for j
    using cell_less[OF g] wf that by (simp add: wf_canvas_def)
  have dm: "(4 * ?k + j) div 4 = ?k" "(4 * ?k + j) mod 4 = j" if "j < 4" for j
    using that by simp_all
  have n: "cv_data ?c' ! (4 * ?k + j)
      = (if 0 \<le> x - dx \<and> x - dx < int (img_width img) \<and> 0 \<le> y - dy \<and> y - dy < int (img_height img)
         then img_data img ! (pixel_index (img_width img) (x - dx) (y - dy) + j)
         else cv_data c ! (4 * ?k + j))" if "j < 4" for j
    using l[OF that] dm[OF that] cell_mod_div[OF g] xy
    by (simp add: putImageData_def Let_def)
  show ?thesis
    unfolding pixel_at_cell[OF b'] pixel_at_cell[OF b] w'
    using n[of 0] n[of 1] n[of 2] n[of 3] by simp
qed

lemma getImageData_nth:
  assumes "0 \<le> u" "u < int sw" "0 \<le> v" "v < int sh" "in_bounds c (sx + u) (sy + v)" "j < 4"
  shows "img_data (getImageData c sx sy sw sh) ! (pixel_index sw u v + j)
     = cv_data c ! (pixel_index (cv_width c) (sx + u) (sy + v) + j)"
proof -
  have g: "in_grid sw sh (u, v)" using assms by (simp add: in_grid_def)
  let ?k = "cell sw (u, v)"
  have pi: "pixel_index sw u v = 4 * ?k" using pixel_index_cell[OF g] by simp
  have l: "4 * ?k + j < sw * sh * 4" using cell_less[OF g] assms(6) by simp
  have dm: "(4 * ?k + j) div 4 = ?k" "(4 * ?k + j) mod 4 = j" using assms(6) by simp_all
  have uv: "int (nat u) = u" "int (nat v) = v" using assms by simp_all
  show ?thesis
    unfolding pi using l dm cell_mod_div[OF g] uv assms(5)
    by (simp add: getImageData_def Let_def)
qed

text \<open>
  Claim C6, against \<open>copy\<close> and \<open>paste\<close> as modelled from the specification. With a
  selection whose normalised rectangle is 3 by 3 and lies in the canvas, \<open>copy\<close> and then
  \<open>paste\<close> at any destination \<open>(dx, dy)\<close> both succeed, the canvas keeps its size, and
  every pixel of the canvas inside the 3 by 3 square at the destination holds the pixel
  of the original block at the same offset, while every other pixel is as it was. The
  part of the square outside the canvas is dropped.
\<close>

theorem copy_paste_block:
  assumes wf: "wf_canvas (canvas s)"
    and sel: "selection s = Some (p, q)"
    and size: "max (fst p) (fst q) - min (fst p) (fst q) = 2"
      "max (snd p) (snd q) - min (snd p) (snd q) = 2"
    and inb: "in_bounds (canvas s) (fst p) (snd p)" "in_bounds (canvas s) (fst q) (snd q)"
  shows "\<exists>s1 s2. copy s = Inr s1 \<and> paste (dx, dy) now s1 = Inr s2
     \<and> cv_width (canvas s2) = cv_width (canvas s) \<and> cv_height (canvas s2) = cv_height (canvas s)
     \<and> (\<forall>x y. in_bounds (canvas s) x y \<longrightarrow>
           pixel_at (canvas s2) x y
             = (if dx \<le> x \<and> x < dx + 3 \<and> dy \<le> y \<and> y < dy + 3
                then pixel_at (canvas s) (min (fst p) (fst q) + (x - dx))
                       (min (snd p) (snd q) + (y - dy))
                else pixel_at (canvas s) x y))"
proof -
  let ?c = "canvas s"
  let ?left = "min (fst p) (fst q)" and ?top = "min (snd p) (snd q)"
  let ?block = "getImageData ?c ?left ?top 3 3"
  let ?s1 = "s\<lparr>clipboard := Some ?block\<rparr>"
  let ?c2 = "putImageData ?block dx dy ?c"
  let ?s2 = "saveToHistory now (?s1\<lparr>canvas := ?c2\<rparr>)"
  have n3: "nat (max (fst p) (fst q) - ?left + 1) = 3" "nat (max (snd p) (snd q) - ?top + 1) = 3"
    using size by simp_all
  have c1: "copy s = Inr ?s1" by (simp add: copy_def sel Let_def n3)
  have c2: "paste (dx, dy) now ?s1 = Inr ?s2" by (simp add: paste_def)
  have cv: "canvas ?s2 = ?c2" by (simp add: saveToHistory_fields)
  have dims: "cv_width ?c2 = cv_width ?c" "cv_height ?c2 = cv_height ?c"
    by (simp_all add: putImageData_def)
  have bw: "img_width ?block = 3" "img_height ?block = 3" by (simp_all add: getImageData_def)
  have src: "in_bounds ?c (?left + u) (?top + v)" if "0 \<le> u" "u < 3" "0 \<le> v" "v < 3" for u v
    using inb size that unfolding in_bounds_def by (auto simp add: min_def max_def split: if_splits)
  have px: "pixel_at ?c2 x y
             = (if dx \<le> x \<and> x < dx + 3 \<and> dy \<le> y \<and> y < dy + 3
                then pixel_at ?c (?left + (x - dx)) (?top + (y - dy))
                else pixel_at ?c x y)" if b: "in_bounds ?c x y" for x y
  proof (cases "dx \<le> x \<and> x < dx + 3 \<and> dy \<le> y \<and> y < dy + 3")
    case False
    then show ?thesis unfolding putImageData_pixel[OF wf b] bw by auto
  next
    case True
    then have r: "0 \<le> x - dx" "x - dx < 3" "0 \<le> y - dy" "y - dy < 3" by simp_all
    note sb = src[OF r]
    have "img_data ?block ! (pixel_index 3 (x - dx) (y - dy) + j)
        = cv_data ?c ! (pixel_index (cv_width ?c) (?left + (x - dx)) (?top + (y - dy)) + j)"
      if "j < 4" for j
      using getImageData_nth[of "x - dx" 3 "y - dy" 3 ?c ?left ?top j] r sb that by simp
    from this[of 0] this[of 1] this[of 2] this[of 3] True r
    show ?thesis unfolding putImageData_pixel[OF wf b] bw by (simp add: pixel_at_def)
  qed
  show ?thesis
    by (intro exI[of _ ?s1] exI[of _ ?s2] conjI c1 c2 allI impI)
       (simp_all only: cv dims px)
qed

theorem copy_paste_block_witness:
  "wf_canvas (canvas selecting) \<and> selection selecting = Some ((0, 0), (2, 2))
   \<and> in_bounds (canvas selecting) 0 0 \<and> in_bounds (canvas selecting) 2 2
   \<and> (\<exists>s1 s2. copy selecting = Inr s1 \<and> paste (1, 1) 1 s1 = Inr s2
         \<and> pixel_at (canvas s2) 2 2 = [16, 17, 18, 19]
         \<and> pixel_at (canvas s2) 0 0 = [0, 1, 2, 3])"
proof -
  have cv: "canvas selecting = nine_pixels" by (simp add: selecting_def)
  have wf: "wf_canvas (canvas selecting)" by (simp add: cv wf_canvas_def nine_pixels_def)
  have sel: "selection selecting = Some ((0, 0), (2, 2))" by (simp add: selecting_def)
  have sz: "max (fst (0::int, 0::int)) (fst (2::int, 2::int)) - min (fst (0::int, 0::int)) (fst (2::int, 2::int)) = 2"
    "max (snd (0::int, 0::int)) (snd (2::int, 2::int)) - min (snd (0::int, 0::int)) (snd (2::int, 2::int)) = 2"
    by simp_all
  have b: "in_bounds (canvas selecting) (fst (0::int, 0::int)) (snd (0::int, 0::int))"
    "in_bounds (canvas selecting) (fst (2::int, 2::int)) (snd (2::int, 2::int))"
    by (simp_all add: cv in_bounds_def nine_pixels_def)
  have b': "in_bounds (canvas selecting) 0 0" "in_bounds (canvas selecting) 2 2"
    using b by simp_all
  have p: "pixel_at (canvas selecting) 1 1 = [16, 17, 18, 19]"
    "pixel_at (canvas selecting) 0 0 = [0, 1, 2, 3]"
    by (simp_all add: cv pixel_at_def nine_pixels_def pixel_index_def)
  from copy_paste_block[OF wf sel sz b, of 1 1 1]
  obtain s1 s2 where c: "copy selecting = Inr s1" "paste (1, 1) 1 s1 = Inr s2"
    and px: "\<forall>x y. in_bounds (canvas selecting) x y \<longrightarrow>
           pixel_at (canvas s2) x y
             = (if 1 \<le> x \<and> x < 1 + 3 \<and> 1 \<le> y \<and> y < 1 + 3
                then pixel_at (canvas selecting) (min (fst (0::int, 0::int)) (fst (2::int, 2::int)) + (x - 1))
                       (min (snd (0::int, 0::int)) (snd (2::int, 2::int)) + (y - 1))
                else pixel_at (canvas selecting) x y)"
    by blast
  from px[rule_format, OF b'(2)] p have 1: "pixel_at (canvas s2) 2 2 = [16, 17, 18, 19]" by simp
  from px[rule_format, OF b'(1)] p have 2: "pixel_at (canvas s2) 0 0 = [0, 1, 2, 3]" by simp
  show ?thesis by (intro conjI wf sel b' exI[of _ s1] exI[of _ s2] c 1 2)
qed

end
